theory Spec2Isabelle
  imports Main "HOL-Library.Sublist"
begin

section \<open>Data model\<close>

text \<open>
  The program is a single script, \<^verbatim>\<open>src/index.js\<close>. The JSON objects it reads are
  modelled as records holding the fields the script looks at.

  A check run carries \<^verbatim>\<open>name\<close>, \<^verbatim>\<open>status\<close> and \<^verbatim>\<open>conclusion\<close>. The script compares
  them to string literals with \<^verbatim>\<open>===\<close> and \<^verbatim>\<open>!==\<close>, so a string field is a \<open>string\<close>;
  \<^verbatim>\<open>conclusion\<close> is \<^verbatim>\<open>null\<close> while a run has not completed, which is \<open>None\<close>.
\<close>

record check_run =
  name :: string
  status :: string
  conclusion :: "string option"

text \<open>The body of the check-runs response, and an axios response \<^verbatim>\<open>{ data }\<close>.\<close>

record check_runs_body =
  check_runs :: "check_run list"

record 'a response =
  data :: 'a

text \<open>A comment of the pull request: \<^verbatim>\<open>comment.id\<close> and \<^verbatim>\<open>comment.body\<close>.\<close>

record comment =
  comment_id :: nat
  body :: string

text \<open>A gif of the image service: \<^verbatim>\<open>gif.title\<close> and \<^verbatim>\<open>gif.images.original.webp\<close>.\<close>

record gif =
  title :: string
  webp :: string

section \<open>Check aggregation\<close>

text \<open>
  \<^verbatim>\<open>getStatusOfChecks\<close> (lines 43 to 55). The global \<^verbatim>\<open>githubAction\<close> is its first
  argument here. The result is one of the three strings the script returns.
\<close>

definition getStatusOfChecks :: "string \<Rightarrow> check_runs_body response \<Rightarrow> string" where
  "getStatusOfChecks githubAction res =
     (let filteredChecks = filter (\<lambda>cr. name cr \<noteq> githubAction) (check_runs (data res));
          failedChecks = filter (\<lambda>cr. status cr = ''completed'' \<and> conclusion cr = Some ''failure'')
                           filteredChecks
      in if length failedChecks \<noteq> 0 then ''FAILURE''
         else
           let inProgressChecks =
                 filter (\<lambda>cr. status cr = ''queued'' \<or> status cr = ''in_progress'') filteredChecks
           in if length inProgressChecks \<noteq> 0 then ''IN_PROGRESS'' else ''SUCCESS'')"

text \<open>The response whose body lists the given check runs.\<close>

definition checks_response :: "check_run list \<Rightarrow> check_runs_body response" where
  "checks_response crs = \<lparr>data = \<lparr>check_runs = crs\<rparr>\<rparr>"

text \<open>The two tests of that function on one check run.\<close>

definition failed :: "check_run \<Rightarrow> bool" where
  "failed cr \<longleftrightarrow> status cr = ''completed'' \<and> conclusion cr = Some ''failure''"

definition pending :: "check_run \<Rightarrow> bool" where
  "pending cr \<longleftrightarrow> status cr = ''queued'' \<or> status cr = ''in_progress''"

section \<open>Configuration\<close>

text \<open>
  The script reads \<^verbatim>\<open>process.env\<close> and the event file once, at start-up (lines 4 to
  11). A variable that is not set is \<open>None\<close>.
  The repository, the commit, the token and the API key only appear in the
  addresses and headers of the requests, which the model does not spell out.

  What the event is to the script: \<^verbatim>\<open>null\<close>, on which reading a field throws; another
  falsy value (the empty string of line 7, \<^verbatim>\<open>false\<close>, \<^verbatim>\<open>0\<close>), which has no fields; or any
  other value, with the \<^verbatim>\<open>action\<close> and the \<^verbatim>\<open>number\<close> it has, if any.
\<close>

record event =
  action :: "string option"
  number :: "nat option"

datatype payload =
    Null
  | Falsy
  | Payload event

text \<open>
  \<^verbatim>\<open>require\<close> is what loading the file at a path gives: \<open>None\<close> when it throws (no such
  file, or not JSON).
\<close>

record environment =
  GITHUB_WORKFLOW :: "string option"
  GITHUB_EVENT_PATH :: "string option"
  GITHUB_ACTION :: "string option"
  require :: "string \<Rightarrow> payload option"

text \<open>\<^verbatim>\<open>process.env.X || ''\<close>: the value, or the empty string.\<close>

definition or_empty :: "string option \<Rightarrow> string" where
  "or_empty v = (case v of None \<Rightarrow> [] | Some x \<Rightarrow> x)"

text \<open>A string is truthy when it is set and not empty.\<close>

definition truthy :: "string option \<Rightarrow> bool" where
  "truthy v = (case v of None \<Rightarrow> False | Some x \<Rightarrow> x \<noteq> [])"

definition NEUTRAL_ERROR_CODE :: "environment \<Rightarrow> nat" where
  "NEUTRAL_ERROR_CODE env = (if truthy (GITHUB_WORKFLOW env) then 78 else 0)"

definition githubAction :: "environment \<Rightarrow> string" where
  "githubAction env = or_empty (GITHUB_ACTION env)"

definition githubEventPath :: "environment \<Rightarrow> string" where
  "githubEventPath env = or_empty (GITHUB_EVENT_PATH env)"

text \<open>Line 7: \<open>None\<close> when \<^verbatim>\<open>require\<close> throws, which nothing catches.\<close>

definition githubEvent :: "environment \<Rightarrow> payload option" where
  "githubEvent env =
     (if githubEventPath env \<noteq> [] then require env (githubEventPath env) else Some Falsy)"

definition commentFooter :: string where
  "commentFooter = ''<sub>;)</sub>''"

text \<open>\<^verbatim>\<open>s.includes(t)\<close>: \<open>t\<close> occurs in \<open>s\<close> as a contiguous run of characters.\<close>

fun js_includes :: "string \<Rightarrow> string \<Rightarrow> bool" where
  "js_includes [] t = (t = [])"
| "js_includes (c # s) t = (prefix t (c # s) \<or> js_includes s t)"

section \<open>The process and the services it talks to\<close>

text \<open>
  The five requests of the script: the check runs of the commit (line 35), the comments
  of the pull request (line 62), the deletion of one comment by its id (line 73), a
  random gif for a tag (line 109) and a new comment with a body (line 126).
\<close>

datatype api_call =
    GetCheckRuns
  | GetComments
  | DeleteComment nat
  | GetRandomGif string
  | PostComment string

text \<open>The lines the script writes with \<^verbatim>\<open>console.log\<close>, with the values they show.\<close>

datatype log_line =
    ScanningChecks
  | FoundExisting nat
  | PostingComment
  | NoEvent "string option"
  | Running string "nat option" "string option"
  | LoggedError
  | MaximumTimeout

text \<open>
  What the script cannot decide is a parameter: for a request sent at a time (in
  milliseconds since start-up), how long its response takes and whether it comes back
  as an error; the check runs GitHub reports at a time; the gif Giphy picks; and how
  many comments GitHub lists on the one page the script asks for.
\<close>

record network =
  latency :: "nat \<Rightarrow> api_call \<Rightarrow> nat"
  rejects :: "nat \<Rightarrow> api_call \<Rightarrow> bool"
  check_runs_at :: "nat \<Rightarrow> check_run list"
  random_gif :: "nat \<Rightarrow> string \<Rightarrow> gif"
  page_size :: nat

text \<open>
  The state of a run: the clock, the comments of the pull request as the server holds
  them, the requests sent so far with the time each was sent, and the console.
\<close>

record process =
  now :: nat
  thread :: "comment list"
  calls :: "(nat \<times> api_call) list"
  console :: "log_line list"

text \<open>
  A promise of the script ends in one of three ways: the process has exited while the
  promise was pending, it was rejected, or it was resolved with a value.
\<close>

datatype 'a settled =
    Exited nat process
  | Rejected process
  | Resolved 'a process

fun final :: "'a settled \<Rightarrow> process" where
  "final (Exited k s) = s"
| "final (Rejected s) = s"
| "final (Resolved x s) = s"

text \<open>\<^verbatim>\<open>promise.then(f)\<close>: \<open>f\<close> runs on the value of a resolved promise only.\<close>

definition andThen :: "'a settled \<Rightarrow> ('a \<Rightarrow> process \<Rightarrow> 'b settled) \<Rightarrow> 'b settled" where
  "andThen p f = (case p of
       Exited k s \<Rightarrow> Exited k s
     | Rejected s \<Rightarrow> Rejected s
     | Resolved x s \<Rightarrow> f x s)"

lemma andThen_cong [fundef_cong]:
  "p = q \<Longrightarrow> (\<And>x s. q = Resolved x s \<Longrightarrow> f x s = g x s) \<Longrightarrow> andThen p f = andThen q g"
  by (simp add: andThen_def split: settled.splits)

definition log :: "log_line \<Rightarrow> process \<Rightarrow> process" where
  "log l s = s\<lparr>console := console s @ [l]\<rparr>"

text \<open>
  The timer of lines 193 to 196 is set at start-up and ends the process with code 1
  after 300000 ms. The script only ever waits (for a response or for the 5000 ms of
  line 161), so the timer decides at each wait: a wait that would end at 300000 ms or
  later does not end, the timer fires first.
\<close>

definition timeout_ms :: nat where
  "timeout_ms = 300000"

definition wait :: "nat \<Rightarrow> process \<Rightarrow> unit settled" where
  "wait d s =
     (if timeout_ms \<le> now s + d
      then Exited 1 (log MaximumTimeout (s\<lparr>now := timeout_ms\<rparr>))
      else Resolved () (s\<lparr>now := now s + d\<rparr>))"

text \<open>
  What a request does to the comments on the server, when the server accepts it. A new
  comment gets an id no comment of the thread has.
\<close>

definition fresh_id :: "comment list \<Rightarrow> nat" where
  "fresh_id cs = Suc (fold max (map comment_id cs) 0)"

fun serve :: "api_call \<Rightarrow> comment list \<Rightarrow> comment list" where
  "serve (DeleteComment i) cs = filter (\<lambda>c. comment_id c \<noteq> i) cs"
| "serve (PostComment b) cs = cs @ [\<lparr>comment_id = fresh_id cs, body = b\<rparr>]"
| "serve GetCheckRuns cs = cs"
| "serve GetComments cs = cs"
| "serve (GetRandomGif tag) cs = cs"

text \<open>
  One request (\<^verbatim>\<open>axios.get\<close>, \<^verbatim>\<open>axios.delete\<close>, \<^verbatim>\<open>axios.post\<close>): it is sent now, the server
  acts on it unless it answers with an error, and the promise settles when the response
  is there. The second argument is the body the server answers with.
\<close>

definition request :: "network \<Rightarrow> api_call \<Rightarrow> 'a \<Rightarrow> process \<Rightarrow> 'a response settled" where
  "request net c d s =
     (let t = now s;
          sent = s\<lparr>calls := calls s @ [(t, c)],
                   thread := (if rejects net t c then thread s else serve c (thread s))\<rparr>
      in andThen (wait (latency net t c) sent)
           (\<lambda>_ s'. if rejects net t c then Rejected s' else Resolved \<lparr>data = d\<rparr> s'))"

text \<open>
  \<^verbatim>\<open>Promise.all\<close> over requests that are all sent now: rejected as soon as the first
  error is there, resolved when the last response is there.
\<close>

definition request_all :: "network \<Rightarrow> api_call list \<Rightarrow> process \<Rightarrow> unit settled" where
  "request_all net cs s =
     (let t = now s;
          sent = s\<lparr>calls := calls s @ map (Pair t) cs,
                   thread := fold serve (filter (\<lambda>c. \<not> rejects net t c) cs) (thread s)\<rparr>
      in case map (latency net t) (filter (rejects net t) cs) of
           [] \<Rightarrow> wait (fold max (map (latency net t) cs) 0) sent
         | d # ds \<Rightarrow> andThen (wait (fold min ds d) sent) (\<lambda>_ s'. Rejected s'))"

section \<open>Fetching the checks, and the comment manager\<close>

text \<open>\<^verbatim>\<open>fetchChecks\<close> (lines 34 to 38).\<close>

definition fetchChecks :: "network \<Rightarrow> process \<Rightarrow> check_runs_body response settled" where
  "fetchChecks net s = request net GetCheckRuns \<lparr>check_runs = check_runs_at net (now s)\<rparr> s"

text \<open>\<^verbatim>\<open>getIssueComments\<close> (lines 60 to 66): the first page of the thread.\<close>

definition getIssueComments :: "network \<Rightarrow> process \<Rightarrow> comment list settled" where
  "getIssueComments net s =
     andThen (request net GetComments (take (page_size net) (thread s)) s)
       (\<lambda>res s'. Resolved (data res) s')"

text \<open>\<^verbatim>\<open>deleteComment\<close> (lines 72 to 76): the request it sends.\<close>

definition deleteComment :: "comment \<Rightarrow> api_call" where
  "deleteComment comment = DeleteComment (comment_id comment)"

text \<open>\<^verbatim>\<open>deleteCommentsFromAction\<close> (lines 82 to 94).\<close>

definition deleteCommentsFromAction :: "network \<Rightarrow> comment list \<Rightarrow> process \<Rightarrow> unit settled" where
  "deleteCommentsFromAction net comments s =
     (let filteredComments = filter (\<lambda>comment. js_includes (body comment) commentFooter) comments
      in if length filteredComments = 0 then Resolved () s
         else request_all net (map deleteComment filteredComments)
                (log (FoundExisting (length filteredComments)) s))"

text \<open>\<^verbatim>\<open>deleteExistingComments\<close> (lines 99 to 101).\<close>

definition deleteExistingComments :: "network \<Rightarrow> process \<Rightarrow> unit settled" where
  "deleteExistingComments net s = andThen (getIssueComments net s) (deleteCommentsFromAction net)"

section \<open>Gif client\<close>

text \<open>\<^verbatim>\<open>getGiphyGifForTag\<close> (lines 107 to 118): \<^verbatim>\<open>giphyRes.data.data\<close> is the gif.\<close>

definition getGiphyGifForTag :: "network \<Rightarrow> string \<Rightarrow> process \<Rightarrow> gif settled" where
  "getGiphyGifForTag net giphyTag s =
     andThen (request net (GetRandomGif giphyTag) \<lparr>data = random_gif net (now s) giphyTag\<rparr> s)
       (\<lambda>giphyRes s'. Resolved (data (data giphyRes)) s')"

text \<open>The template of line 129; \<^verbatim>\<open>\n\<close> is the character 10.\<close>

definition comment_body :: "gif \<Rightarrow> string" where
  "comment_body gif = ''!['' @ title gif @ ''](''
       @ webp gif @ '')'' @ [CHR 0x0A] @ commentFooter"

text \<open>\<^verbatim>\<open>postCommentWithGif\<close> (lines 124 to 135). The response body is not looked at.\<close>

definition postCommentWithGif :: "network \<Rightarrow> gif \<Rightarrow> process \<Rightarrow> unit response settled" where
  "postCommentWithGif net gif s =
     request net (PostComment (comment_body gif)) () (log PostingComment s)"

text \<open>\<^verbatim>\<open>postGiphyGifForTag\<close> (lines 141 to 143).\<close>

definition postGiphyGifForTag :: "network \<Rightarrow> string \<Rightarrow> process \<Rightarrow> unit response settled" where
  "postGiphyGifForTag net giphyTag s =
     andThen (getGiphyGifForTag net giphyTag s) (postCommentWithGif net)"

section \<open>Notifier loop\<close>

text \<open>Time does not go back while a promise is pending.\<close>

lemma wait_Resolved:
  "wait d s = Resolved x s' \<Longrightarrow> now s' = now s + d \<and> now s + d < timeout_ms"
  by (auto simp: wait_def split: if_splits)

lemma request_now: "request net c d s = Resolved x s' \<Longrightarrow> now s \<le> now s'"
  by (auto simp: request_def andThen_def Let_def dest!: wait_Resolved
      split: settled.splits if_splits)

lemma request_all_now: "request_all net cs s = Resolved x s' \<Longrightarrow> now s \<le> now s'"
  by (auto simp: request_all_def andThen_def Let_def dest!: wait_Resolved
      split: settled.splits if_splits list.splits)

lemma deleteExistingComments_now:
  "deleteExistingComments net s = Resolved x s' \<Longrightarrow> now s \<le> now s'"
  by (auto simp: deleteExistingComments_def getIssueComments_def deleteCommentsFromAction_def
      log_def andThen_def Let_def dest!: request_now request_all_now
      split: settled.splits if_splits)

lemma fetchChecks_now: "fetchChecks net s = Resolved x s' \<Longrightarrow> now s \<le> now s'"
  by (auto simp: fetchChecks_def dest: request_now)

text \<open>
  \<^verbatim>\<open>scanChecksAndPostGif\<close> (lines 149 to 166). The \<^verbatim>\<open>switch\<close> has no default: on any
  other status the promise resolves at once. The value the promise resolves with is
  not used by the caller, and is left out. The function calls itself after a wait of
  5000 ms that the timer did not cut, so the time left until the timer decreases.
\<close>

function scanChecksAndPostGif :: "environment \<Rightarrow> network \<Rightarrow> process \<Rightarrow> unit settled" where
  "scanChecksAndPostGif env net s =
     andThen
       (andThen
         (andThen (deleteExistingComments net (log ScanningChecks s)) (\<lambda>_. fetchChecks net))
         (\<lambda>res s'. Resolved (getStatusOfChecks (githubAction env) res) s'))
       (\<lambda>status s'.
          if status = ''FAILURE'' then
            andThen (postGiphyGifForTag net ''thumbs-down'' s') (\<lambda>_. Resolved ())
          else if status = ''SUCCESS'' then
            andThen (postGiphyGifForTag net ''thumbs-up'' s') (\<lambda>_. Resolved ())
          else if status = ''IN_PROGRESS'' then
            andThen (wait 5000 s') (\<lambda>_. scanChecksAndPostGif env net)
          else Resolved () s')"
  by pat_completeness auto
termination
proof (relation "measure (\<lambda>(env, net, s). timeout_ms - now s)", goal_cases)
  case 1
  show ?case by simp
next
  case (2 env net s status s' u s'')
  from 2(1) obtain res s1 where
    d: "deleteExistingComments net (log ScanningChecks s) = Resolved () s1"
    and f: "fetchChecks net s1 = Resolved res s'"
    by (auto simp: andThen_def split: settled.splits)
  from d have "now s \<le> now s1"
    using deleteExistingComments_now [of net "log ScanningChecks s"] by (simp add: log_def)
  moreover from f have "now s1 \<le> now s'" by (rule fetchChecks_now)
  moreover from 2 have "now s'' = now s' + 5000 \<and> now s' + 5000 < timeout_ms"
    using wait_Resolved by blast
  ultimately show ?case by auto
qed

declare scanChecksAndPostGif.simps [simp del]

text \<open>
  The script itself, from the comments the pull request has at start-up: the exit code
  and the state at exit. An exception at start-up is caught by nothing: the process
  ends with code 1 and \<^verbatim>\<open>console.log\<close> has written nothing. That is so when \<^verbatim>\<open>require\<close>
  throws (line 7), and when the event is \<^verbatim>\<open>null\<close>, since line 16 reads
  \<^verbatim>\<open>githubEvent.number\<close> before the guard. The guard of lines 168 to 178 comes next. After
  it the timer and the pipeline start together; the pipeline ends the process with 0
  when it resolves (line 187) and with 1 when it is rejected (lines 188 to 191).
\<close>

definition main :: "environment \<Rightarrow> network \<Rightarrow> comment list \<Rightarrow> nat \<times> process" where
  "main env net cs =
     (let start = \<lparr>now = 0, thread = cs, calls = [], console = []\<rparr> in
      case githubEvent env of
        None \<Rightarrow> (1, start)
      | Some Null \<Rightarrow> (1, start)
      | Some Falsy \<Rightarrow> (NEUTRAL_ERROR_CODE env, log (NoEvent None) start)
      | Some (Payload ev) \<Rightarrow>
          if action ev \<noteq> Some ''synchronize'' \<and> action ev \<noteq> Some ''opened''
          then (NEUTRAL_ERROR_CODE env, log (NoEvent (action ev)) start)
          else
            (case scanChecksAndPostGif env net
                    (log (Running (githubAction env) (number ev) (action ev)) start) of
               Resolved _ s \<Rightarrow> (0, s)
             | Rejected s \<Rightarrow> (1, log LoggedError s)
             | Exited k s \<Rightarrow> (k, s)))"

section \<open>Notions used in the statements\<close>

text \<open>
  The event starts the pipeline: it has loaded, and the test of lines 168 to 171 fails.
\<close>

definition triggers :: "environment \<Rightarrow> bool" where
  "triggers env = (case githubEvent env of
       Some (Payload ev) \<Rightarrow> action ev = Some ''synchronize'' \<or> action ev = Some ''opened''
     | _ \<Rightarrow> False)"

text \<open>
  The comments that bear the footer: their body has the footer somewhere in it, that is,
  \<open>body = before @ footer @ after\<close> for some \<open>before\<close> and \<open>after\<close>.
\<close>

definition footer_comments :: "comment list \<Rightarrow> comment list" where
  "footer_comments cs = filter (\<lambda>c. sublist commentFooter (body c)) cs"

fun is_post :: "api_call \<Rightarrow> bool" where
  "is_post (PostComment b) = True"
| "is_post c = False"

fun is_delete :: "api_call \<Rightarrow> bool" where
  "is_delete (DeleteComment i) = True"
| "is_delete c = False"

text \<open>
  A request sent at a time has no answer the script could see when the server answers
  with an error, or when the answer would come at 300000 ms or later.
\<close>

definition unanswered :: "network \<Rightarrow> nat \<times> api_call \<Rightarrow> bool" where
  "unanswered net e \<longleftrightarrow>
     rejects net (fst e) (snd e) \<or> timeout_ms \<le> fst e + latency net (fst e) (snd e)"

text \<open>
  The order of listings and fetches in a list of requests: a listing of the comments
  starts a round (\<open>cleaned\<close> becomes true), the fetch of the check runs ends it, and
  neither happens twice in a row. The other requests may come anywhere.
\<close>

fun rounds :: "bool \<Rightarrow> api_call list \<Rightarrow> bool" where
  "rounds cleaned [] = True"
| "rounds cleaned (GetComments # cs) = (\<not> cleaned \<and> rounds True cs)"
| "rounds cleaned (GetCheckRuns # cs) = (cleaned \<and> rounds False cs)"
| "rounds cleaned (DeleteComment i # cs) = rounds cleaned cs"
| "rounds cleaned (GetRandomGif tag # cs) = rounds cleaned cs"
| "rounds cleaned (PostComment b # cs) = rounds cleaned cs"

definition cleanup_before_each_poll :: "api_call list \<Rightarrow> bool" where
  "cleanup_before_each_poll cs = rounds False cs"

section \<open>Notions used in the proofs\<close>

text \<open>The state right after a request is sent.\<close>

definition sent :: "network \<Rightarrow> api_call \<Rightarrow> process \<Rightarrow> process" where
  "sent net c s = s\<lparr>calls := calls s @ [(now s, c)],
                     thread := (if rejects net (now s) c then thread s else serve c (thread s))\<rparr>"

text \<open>The part of \<^verbatim>\<open>scanChecksAndPostGif\<close> before the \<^verbatim>\<open>switch\<close>: one round of cleanup and poll.\<close>

definition poll :: "environment \<Rightarrow> network \<Rightarrow> process \<Rightarrow> string settled" where
  "poll env net s =
     andThen
       (andThen (deleteExistingComments net (log ScanningChecks s)) (\<lambda>_. fetchChecks net))
       (\<lambda>res s'. Resolved (getStatusOfChecks (githubAction env) res) s')"

text \<open>
  A promise started at \<open>s\<close> settles in time: an exit is the timer's, with code 1 at
  300000 ms; otherwise the clock has not gone back and is still below 300000 ms.
\<close>

definition timely :: "process \<Rightarrow> 'a settled \<Rightarrow> bool" where
  "timely s r = (case r of
       Exited k s' \<Rightarrow> k = 1 \<and> now s' = timeout_ms \<and> console s' \<noteq> []
                        \<and> last (console s') = MaximumTimeout
     | Rejected s' \<Rightarrow> now s \<le> now s' \<and> now s' < timeout_ms
     | Resolved x s' \<Rightarrow> now s \<le> now s' \<and> now s' < timeout_ms)"

text \<open>
  The requests a step adds are in order, and when the step did not resolve, each comment
  it has posted has no answer.
\<close>

definition fine :: "network \<Rightarrow> bool \<Rightarrow> bool \<Rightarrow> (nat \<times> api_call) list \<Rightarrow> bool" where
  "fine net cleaned resolved new \<longleftrightarrow>
     rounds cleaned (map snd new)
     \<and> (\<not> resolved \<longrightarrow> (\<forall>e \<in> set new. is_post (snd e) \<longrightarrow> unanswered net e))"

section \<open>Example runs\<close>

text \<open>
  A pull request opened inside a workflow, an event that does not start the pipeline,
  and a start outside a workflow with no event at all.
\<close>

definition env1 :: environment where
  "env1 = \<lparr>GITHUB_WORKFLOW = Some ''ci'', GITHUB_EVENT_PATH = Some ''/github/workflow/event.json'',
            GITHUB_ACTION = Some ''self'',
            require = (\<lambda>path. Some (Payload \<lparr>action = Some ''opened'', number = Some 7\<rparr>))\<rparr>"





definition thumb :: gif where
  "thumb = \<lparr>title = ''yay'', webp = ''https://g/1.webp''\<rparr>"

definition building :: check_run where
  "building = \<lparr>name = ''build'', status = ''in_progress'', conclusion = None\<rparr>"

definition built :: check_run where
  "built = \<lparr>name = ''build'', status = ''completed'', conclusion = Some ''success''\<rparr>"

text \<open>A build that is in progress at the first poll and has passed at the second.\<close>

definition net_second_poll :: network where
  "net_second_poll = \<lparr>latency = (\<lambda>t c. 0), rejects = (\<lambda>t c. False),
     check_runs_at = (\<lambda>t. if t < 5000 then [building] else [built]),
     random_gif = (\<lambda>t tag. thumb), page_size = 30\<rparr>"

text \<open>Giphy takes 299 seconds, and the answer to the new comment takes two more.\<close>

definition net_late_post :: network where
  "net_late_post = \<lparr>
     latency = (\<lambda>t c. case c of GetRandomGif tag \<Rightarrow> 299000 | PostComment b \<Rightarrow> 2000
                       | GetCheckRuns \<Rightarrow> 0 | GetComments \<Rightarrow> 0 | DeleteComment i \<Rightarrow> 0),
     rejects = (\<lambda>t c. False),
     check_runs_at = (\<lambda>t. [built]),
     random_gif = (\<lambda>t tag. thumb), page_size = 30\<rparr>"

text \<open>A build that never completes, and one that has passed from the start.\<close>

definition net_stuck :: network where
  "net_stuck = \<lparr>latency = (\<lambda>t c. 100), rejects = (\<lambda>t c. False),
     check_runs_at = (\<lambda>t. [building]),
     random_gif = (\<lambda>t tag. thumb), page_size = 30\<rparr>"

definition net_passing :: network where
  "net_passing = \<lparr>latency = (\<lambda>t c. 100), rejects = (\<lambda>t c. False),
     check_runs_at = (\<lambda>t. [built]),
     random_gif = (\<lambda>t tag. thumb), page_size = 30\<rparr>"

text \<open>The action's own run in progress, next to a run of another check that has passed.\<close>

definition net_self_running :: network where
  "net_self_running = \<lparr>latency = (\<lambda>t c. 100), rejects = (\<lambda>t c. False),
     check_runs_at = (\<lambda>t. [\<lparr>name = ''self'', status = ''in_progress'', conclusion = None\<rparr>,
                            \<lparr>name = ''other'', status = ''completed'', conclusion = Some ''success''\<rparr>]),
     random_gif = (\<lambda>t tag. thumb), page_size = 30\<rparr>"

text \<open>The comments of the example in the specification.\<close>

definition two_comments :: "comment list" where
  "two_comments =
     [\<lparr>comment_id = 1, body = ''hi''\<rparr>, \<lparr>comment_id = 2, body = ''ok <sub>;)</sub>''\<rparr>]"

text \<open>
  Thirty comments of other people, then the comment of an earlier run. GitHub lists
  thirty comments on a page, the oldest first.
\<close>

definition busy_thread :: "comment list" where
  "busy_thread =
     map (\<lambda>i. \<lparr>comment_id = i, body = ''hi''\<rparr>)
       [1, 2, 3, 4, 5, 6, 7, 8, 9, 10, 11, 12, 13, 14, 15, 16, 17, 18, 19, 20,
        21, 22, 23, 24, 25, 26, 27, 28, 29, 30]
     @ [\<lparr>comment_id = 31, body = ''ok <sub>;)</sub>''\<rparr>]"

section \<open>Properties of the check aggregation\<close>

lemma getStatusOfChecks_range:
  "getStatusOfChecks a res \<in> {''FAILURE'', ''IN_PROGRESS'', ''SUCCESS''}"
  by (simp add: getStatusOfChecks_def Let_def)

lemma getStatusOfChecks_cases:
  "getStatusOfChecks a res =
     (if \<exists>cr \<in> set (check_runs (data res)). name cr \<noteq> a \<and> failed cr then ''FAILURE''
      else if \<exists>cr \<in> set (check_runs (data res)). name cr \<noteq> a \<and> pending cr then ''IN_PROGRESS''
      else ''SUCCESS'')"
  by (auto simp add: getStatusOfChecks_def failed_def pending_def Let_def filter_empty_conv)

text \<open>
  Claim C1. Whenever one of the check runs not named like the action has status
  \<^verbatim>\<open>completed\<close> and conclusion \<^verbatim>\<open>failure\<close>, the aggregate status is \<^verbatim>\<open>FAILURE\<close>, whatever
  the other runs are: a failure wins over runs still in progress.
\<close>

theorem failure_takes_priority:
  assumes "cr \<in> set (check_runs (data res))"
    and "name cr \<noteq> a"
    and "status cr = ''completed''"
    and "conclusion cr = Some ''failure''"
  shows "getStatusOfChecks a res = ''FAILURE''"
proof -
  from assms have "\<exists>cr \<in> set (check_runs (data res)). name cr \<noteq> a \<and> failed cr"
    unfolding failed_def by blast
  then show ?thesis
    by (simp only: getStatusOfChecks_cases if_True)
qed

text \<open>A failed run next to a queued one and one in progress, and the action's own run.\<close>

theorem failure_takes_priority_witness:
  "getStatusOfChecks ''self''
     (checks_response
        [\<lparr>name = ''lint'', status = ''queued'', conclusion = None\<rparr>,
         \<lparr>name = ''self'', status = ''in_progress'', conclusion = None\<rparr>,
         \<lparr>name = ''build'', status = ''completed'', conclusion = Some ''failure''\<rparr>,
         \<lparr>name = ''test'', status = ''in_progress'', conclusion = None\<rparr>]) = ''FAILURE''"
  by (rule failure_takes_priority
        [where cr = "\<lparr>name = ''build'', status = ''completed'', conclusion = Some ''failure''\<rparr>"])
     (simp_all add: checks_response_def)

text \<open>
  Claim C3. The check runs named like the action take no part in the aggregation: the
  status of a collection is the status of the collection without them, whatever their
  own status and conclusion are.
\<close>

theorem self_excluded:
  "getStatusOfChecks a res =
   getStatusOfChecks a
     (res\<lparr>data := (data res)\<lparr>check_runs := filter (\<lambda>cr. name cr \<noteq> a) (check_runs (data res))\<rparr>\<rparr>)"
  by (simp add: getStatusOfChecks_def)

text \<open>
  Claim C4. When no check run other than the action's own has status \<^verbatim>\<open>completed\<close> with
  conclusion \<^verbatim>\<open>failure\<close>, the aggregate status is \<^verbatim>\<open>IN_PROGRESS\<close> if one of these runs
  is \<^verbatim>\<open>queued\<close> or \<^verbatim>\<open>in_progress\<close>, and \<^verbatim>\<open>SUCCESS\<close> otherwise; with no such run at all it
  is \<^verbatim>\<open>SUCCESS\<close>.
\<close>

theorem in_progress_or_success:
  assumes "\<forall>cr \<in> set (check_runs (data res)).
             name cr \<noteq> a \<longrightarrow> \<not> (status cr = ''completed'' \<and> conclusion cr = Some ''failure'')"
  shows "getStatusOfChecks a res =
           (if \<exists>cr \<in> set (check_runs (data res)).
                 name cr \<noteq> a \<and> (status cr = ''queued'' \<or> status cr = ''in_progress'')
            then ''IN_PROGRESS'' else ''SUCCESS'')
         \<and> (filter (\<lambda>cr. name cr \<noteq> a) (check_runs (data res)) = []
               \<longrightarrow> getStatusOfChecks a res = ''SUCCESS'')"
proof
  from assms have none: "\<not> (\<exists>cr \<in> set (check_runs (data res)). name cr \<noteq> a \<and> failed cr)"
    unfolding failed_def by blast
  then show "getStatusOfChecks a res =
           (if \<exists>cr \<in> set (check_runs (data res)).
                 name cr \<noteq> a \<and> (status cr = ''queued'' \<or> status cr = ''in_progress'')
            then ''IN_PROGRESS'' else ''SUCCESS'')"
    by (simp only: getStatusOfChecks_cases pending_def if_False)
  show "filter (\<lambda>cr. name cr \<noteq> a) (check_runs (data res)) = []
               \<longrightarrow> getStatusOfChecks a res = ''SUCCESS''"
    by (simp add: getStatusOfChecks_def)
qed

text \<open>
  A queued run next to a successful one gives \<^verbatim>\<open>IN_PROGRESS\<close>; a cancelled run next to
  the action's own run in progress gives \<^verbatim>\<open>SUCCESS\<close>; the action's own run alone, and
  no run at all, give \<^verbatim>\<open>SUCCESS\<close>.
\<close>

theorem in_progress_or_success_witness:
  "getStatusOfChecks ''self''
     (checks_response
        [\<lparr>name = ''build'', status = ''completed'', conclusion = Some ''success''\<rparr>,
         \<lparr>name = ''test'', status = ''queued'', conclusion = None\<rparr>]) = ''IN_PROGRESS''
   \<and> getStatusOfChecks ''self''
     (checks_response
        [\<lparr>name = ''self'', status = ''in_progress'', conclusion = None\<rparr>,
         \<lparr>name = ''build'', status = ''completed'', conclusion = Some ''cancelled''\<rparr>]) = ''SUCCESS''
   \<and> getStatusOfChecks ''self''
     (checks_response [\<lparr>name = ''self'', status = ''in_progress'', conclusion = None\<rparr>]) = ''SUCCESS''
   \<and> getStatusOfChecks ''self'' (checks_response []) = ''SUCCESS''"
proof (intro conjI)
  show "getStatusOfChecks ''self''
     (checks_response
        [\<lparr>name = ''build'', status = ''completed'', conclusion = Some ''success''\<rparr>,
         \<lparr>name = ''test'', status = ''queued'', conclusion = None\<rparr>]) = ''IN_PROGRESS''"
    by (subst in_progress_or_success [THEN conjunct1]) (simp_all add: checks_response_def)
  show "getStatusOfChecks ''self''
     (checks_response
        [\<lparr>name = ''self'', status = ''in_progress'', conclusion = None\<rparr>,
         \<lparr>name = ''build'', status = ''completed'', conclusion = Some ''cancelled''\<rparr>]) = ''SUCCESS''"
    by (subst in_progress_or_success [THEN conjunct1]) (simp_all add: checks_response_def)
  show "getStatusOfChecks ''self''
     (checks_response [\<lparr>name = ''self'', status = ''in_progress'', conclusion = None\<rparr>]) = ''SUCCESS''"
    by (rule in_progress_or_success [THEN conjunct2, rule_format]) (simp_all add: checks_response_def)
  show "getStatusOfChecks ''self'' (checks_response []) = ''SUCCESS''"
    by (rule in_progress_or_success [THEN conjunct2, rule_format]) (simp_all add: checks_response_def)
qed

text \<open>
  Claim C10. A check run other than the action's own with status \<^verbatim>\<open>completed\<close> and a
  conclusion that is not \<^verbatim>\<open>failure\<close> (another conclusion, or none) has no part in a
  \<^verbatim>\<open>FAILURE\<close> or an \<^verbatim>\<open>IN_PROGRESS\<close>: with or without it the status is the same. When all
  the runs other than the action's own are of this kind, the status is \<^verbatim>\<open>SUCCESS\<close>.
\<close>

theorem completed_without_failure_is_neutral:
  "(name cr \<noteq> a \<and> status cr = ''completed'' \<and> conclusion cr \<noteq> Some ''failure'' \<longrightarrow>
      getStatusOfChecks a (checks_response (xs @ cr # ys))
        = getStatusOfChecks a (checks_response (xs @ ys)))
   \<and> ((\<forall>r \<in> set crs. name r \<noteq> a \<longrightarrow>
          status r = ''completed'' \<and> conclusion r \<noteq> Some ''failure'')
        \<longrightarrow> getStatusOfChecks a (checks_response crs) = ''SUCCESS'')"
proof (intro conjI impI)
  assume "name cr \<noteq> a \<and> status cr = ''completed'' \<and> conclusion cr \<noteq> Some ''failure''"
  then have "\<not> failed cr" "\<not> pending cr"
    by (simp_all add: failed_def pending_def)
  then show "getStatusOfChecks a (checks_response (xs @ cr # ys))
             = getStatusOfChecks a (checks_response (xs @ ys))"
    unfolding getStatusOfChecks_cases by (auto simp: checks_response_def)
next
  assume all: "\<forall>r \<in> set crs. name r \<noteq> a \<longrightarrow>
             status r = ''completed'' \<and> conclusion r \<noteq> Some ''failure''"
  then have "\<not> (\<exists>cr \<in> set crs. name cr \<noteq> a \<and> failed cr)"
    and "\<not> (\<exists>cr \<in> set crs. name cr \<noteq> a \<and> pending cr)"
    by (auto simp: failed_def pending_def)
  then show "getStatusOfChecks a (checks_response crs) = ''SUCCESS''"
    unfolding getStatusOfChecks_cases by (simp add: checks_response_def)
qed

text \<open>
  A failure stays a failure and a run in progress stays in progress when a timed-out
  run is put between them and the others; a cancelled run, a neutral one and a
  completed one with no conclusion, next to the action's own failed run, give
  \<^verbatim>\<open>SUCCESS\<close>.
\<close>

theorem completed_without_failure_is_neutral_witness:
  "getStatusOfChecks ''self''
     (checks_response
        ([\<lparr>name = ''build'', status = ''completed'', conclusion = Some ''failure''\<rparr>]
         @ \<lparr>name = ''e2e'', status = ''completed'', conclusion = Some ''timed_out''\<rparr>
         # [\<lparr>name = ''test'', status = ''queued'', conclusion = None\<rparr>]))
     = getStatusOfChecks ''self''
     (checks_response
        ([\<lparr>name = ''build'', status = ''completed'', conclusion = Some ''failure''\<rparr>]
         @ [\<lparr>name = ''test'', status = ''queued'', conclusion = None\<rparr>]))
   \<and> getStatusOfChecks ''self''
     (checks_response
        [\<lparr>name = ''a'', status = ''completed'', conclusion = Some ''cancelled''\<rparr>,
         \<lparr>name = ''b'', status = ''completed'', conclusion = Some ''neutral''\<rparr>,
         \<lparr>name = ''self'', status = ''completed'', conclusion = Some ''failure''\<rparr>,
         \<lparr>name = ''c'', status = ''completed'', conclusion = None\<rparr>]) = ''SUCCESS''"
proof
  show "getStatusOfChecks ''self''
     (checks_response
        ([\<lparr>name = ''build'', status = ''completed'', conclusion = Some ''failure''\<rparr>]
         @ \<lparr>name = ''e2e'', status = ''completed'', conclusion = Some ''timed_out''\<rparr>
         # [\<lparr>name = ''test'', status = ''queued'', conclusion = None\<rparr>]))
     = getStatusOfChecks ''self''
     (checks_response
        ([\<lparr>name = ''build'', status = ''completed'', conclusion = Some ''failure''\<rparr>]
         @ [\<lparr>name = ''test'', status = ''queued'', conclusion = None\<rparr>]))"
    by (rule completed_without_failure_is_neutral [THEN conjunct1, rule_format]) simp
  show "getStatusOfChecks ''self''
     (checks_response
        [\<lparr>name = ''a'', status = ''completed'', conclusion = Some ''cancelled''\<rparr>,
         \<lparr>name = ''b'', status = ''completed'', conclusion = Some ''neutral''\<rparr>,
         \<lparr>name = ''self'', status = ''completed'', conclusion = Some ''failure''\<rparr>,
         \<lparr>name = ''c'', status = ''completed'', conclusion = None\<rparr>]) = ''SUCCESS''"
    by (rule completed_without_failure_is_neutral [THEN conjunct2, rule_format]) auto
qed

section \<open>How promises settle\<close>

lemma js_includes_iff: "js_includes s t \<longleftrightarrow> sublist t s"
  by (induction s) (simp_all add: sublist_Cons_right)

lemma footer_comments_code:
  "footer_comments cs = filter (\<lambda>comment. js_includes (body comment) commentFooter) cs"
  by (simp add: footer_comments_def js_includes_iff)

lemma final_andThen:
  "final (andThen p f) = (case p of Resolved x s \<Rightarrow> final (f x s) | _ \<Rightarrow> final p)"
  by (simp add: andThen_def split: settled.splits)

lemma final_andThen_Resolved: "final (andThen p (\<lambda>x s. Resolved (g x) s)) = final p"
  by (cases p) (simp_all add: andThen_def)

lemma final_thumbs: "final (andThen p (\<lambda>_. Resolved ())) = final p"
  by (cases p) (simp_all add: andThen_def)

lemma thumbs_Resolved:
  "(\<exists>x s'. andThen p (\<lambda>_. Resolved ()) = Resolved x s') = (\<exists>x s'. p = Resolved x s')"
  by (cases p) (simp_all add: andThen_def)

lemma andThen_Resolved:
  "(andThen p f = Resolved y s') = (\<exists>x s1. p = Resolved x s1 \<and> f x s1 = Resolved y s')"
  by (cases p) (simp_all add: andThen_def)

lemma andThen_Rejected:
  "(andThen p f = Rejected s') =
     (p = Rejected s' \<or> (\<exists>x s1. p = Resolved x s1 \<and> f x s1 = Rejected s'))"
  by (cases p) (simp_all add: andThen_def)

lemma wait_Exited:
  "wait d s = Exited k s' \<Longrightarrow>
     k = 1 \<and> s' = log MaximumTimeout (s\<lparr>now := timeout_ms\<rparr>) \<and> timeout_ms \<le> now s + d"
  by (auto simp: wait_def split: if_splits)

lemma wait_Resolved_state:
  "wait d s = Resolved x s' \<Longrightarrow> s' = s\<lparr>now := now s + d\<rparr> \<and> now s + d < timeout_ms"
  by (auto simp: wait_def split: if_splits)

lemma wait_not_Rejected [simp]: "wait d s \<noteq> Rejected s'"
  by (simp add: wait_def)

lemma request_as_wait:
  "request net c d s =
     andThen (wait (latency net (now s) c) (sent net c s))
       (\<lambda>_ s'. if rejects net (now s) c then Rejected s' else Resolved \<lparr>data = d\<rparr> s')"
  by (simp add: request_def sent_def Let_def)

lemma request_Resolved:
  "request net c d s = Resolved x s' \<Longrightarrow>
     x = \<lparr>data = d\<rparr> \<and> \<not> rejects net (now s) c
     \<and> s' = s\<lparr>calls := calls s @ [(now s, c)], thread := serve c (thread s),
              now := now s + latency net (now s) c\<rparr>
     \<and> now s + latency net (now s) c < timeout_ms"
  by (auto simp: request_as_wait andThen_Resolved sent_def split: if_splits dest!: wait_Resolved_state)

lemma request_Rejected:
  "request net c d s = Rejected s' \<Longrightarrow>
     rejects net (now s) c
     \<and> s' = s\<lparr>calls := calls s @ [(now s, c)], now := now s + latency net (now s) c\<rparr>
     \<and> now s + latency net (now s) c < timeout_ms"
  by (auto simp: request_as_wait andThen_Rejected sent_def split: if_splits dest!: wait_Resolved_state)

section \<open>One round with its cases\<close>

lemma poll_Resolved_status:
  "poll env net s = Resolved st s1 \<Longrightarrow> st = ''FAILURE'' \<or> st = ''IN_PROGRESS'' \<or> st = ''SUCCESS''"
  using getStatusOfChecks_range by (auto simp: poll_def andThen_Resolved)

lemma scan_unfold:
  "scanChecksAndPostGif env net s =
     andThen (poll env net s)
       (\<lambda>status s'.
          if status = ''FAILURE'' then
            andThen (postGiphyGifForTag net ''thumbs-down'' s') (\<lambda>_. Resolved ())
          else if status = ''SUCCESS'' then
            andThen (postGiphyGifForTag net ''thumbs-up'' s') (\<lambda>_. Resolved ())
          else if status = ''IN_PROGRESS'' then
            andThen (wait 5000 s') (\<lambda>_. scanChecksAndPostGif env net)
          else Resolved () s')"
  by (subst scanChecksAndPostGif.simps) (simp add: poll_def)

lemma scan_induct [case_names round]:
  assumes "\<And>s. (\<And>s1 s2. poll env net s = Resolved ''IN_PROGRESS'' s1 \<Longrightarrow>
                     wait 5000 s1 = Resolved () s2 \<Longrightarrow> P s2) \<Longrightarrow> P s"
  shows "P s"
proof -
  have "e = env \<Longrightarrow> n = net \<Longrightarrow> P s" for e n
  proof (induction e n s rule: scanChecksAndPostGif.induct)
    case (1 e n s)
    show ?case
    proof (rule assms)
      fix s1 s2
      assume "poll env net s = Resolved ''IN_PROGRESS'' s1" "wait 5000 s1 = Resolved () s2"
      with 1(2,3) show "P s2"
        by (intro 1(1) [of "''IN_PROGRESS''" s1 "()" s2]) (simp_all add: poll_def)
    qed
  qed
  then show ?thesis by simp
qed

lemma scan_cases [consumes 1, case_names cut failed thumbs_down thumbs_up cut_waiting again]:
  assumes "scanChecksAndPostGif env net s = r"
  obtains
    k s' where "poll env net s = Exited k s'" "r = Exited k s'"
  | s' where "poll env net s = Rejected s'" "r = Rejected s'"
  | s1 where "poll env net s = Resolved ''FAILURE'' s1"
      "r = andThen (postGiphyGifForTag net ''thumbs-down'' s1) (\<lambda>_. Resolved ())"
  | s1 where "poll env net s = Resolved ''SUCCESS'' s1"
      "r = andThen (postGiphyGifForTag net ''thumbs-up'' s1) (\<lambda>_. Resolved ())"
  | s1 k s' where "poll env net s = Resolved ''IN_PROGRESS'' s1"
      "wait 5000 s1 = Exited k s'" "r = Exited k s'"
  | s1 s2 where "poll env net s = Resolved ''IN_PROGRESS'' s1"
      "wait 5000 s1 = Resolved () s2" "r = scanChecksAndPostGif env net s2"
proof (cases "poll env net s")
  case (Exited k s')
  with assms that(1) show ?thesis by (auto simp add: scan_unfold andThen_def)
next
  case (Rejected s')
  with assms that(2) show ?thesis by (auto simp add: scan_unfold andThen_def)
next
  case (Resolved st s1)
  from poll_Resolved_status [OF Resolved]
  consider "st = ''FAILURE''" | "st = ''SUCCESS''" | "st = ''IN_PROGRESS''" by blast
  then show ?thesis
  proof cases
    case 1
    with assms Resolved that(3) show ?thesis by (auto simp add: scan_unfold andThen_def)
  next
    case 2
    with assms Resolved that(4) show ?thesis by (auto simp add: scan_unfold andThen_def)
  next
    case 3
    show ?thesis
    proof (cases "wait 5000 s1")
      case (Exited k s')
      with assms Resolved 3 that(5) show ?thesis by (auto simp add: scan_unfold andThen_def)
    next
      case (Rejected s')
      then show ?thesis by simp
    next
      case (Resolved u s2)
      with assms \<open>poll env net s = Resolved st s1\<close> 3 that(6) show ?thesis
        by (auto simp add: scan_unfold andThen_def)
    qed
  qed
qed

section \<open>The requests of each step\<close>

lemma delete_not_post: "is_delete c \<Longrightarrow> \<not> is_post c"
  by (cases c) simp_all

lemma request_calls: "calls (final (request net c d s)) = calls s @ [(now s, c)]"
  by (simp add: request_def Let_def final_andThen wait_def log_def split: settled.splits)

lemma request_all_calls: "calls (final (request_all net cs s)) = calls s @ map (Pair (now s)) cs"
  by (simp add: request_all_def Let_def final_andThen wait_def log_def split: settled.splits list.splits)

lemma deleteCommentsFromAction_calls:
  "calls (final (deleteCommentsFromAction net comments s)) =
     calls s @ map (\<lambda>c. (now s, DeleteComment (comment_id c)))
                 (filter (\<lambda>c. sublist ''<sub>;)</sub>'' (body c)) comments)"
  by (simp add: deleteCommentsFromAction_def Let_def request_all_calls log_def js_includes_iff
      commentFooter_def deleteComment_def comp_def)

lemma deleteCommentsFromAction_noop:
  "filter (\<lambda>c. sublist ''<sub>;)</sub>'' (body c)) comments = [] \<Longrightarrow>
     deleteCommentsFromAction net comments s = Resolved () s"
  by (simp add: deleteCommentsFromAction_def Let_def js_includes_iff commentFooter_def)

lemma getIssueComments_calls:
  "calls (final (getIssueComments net s)) = calls s @ [(now s, GetComments)]"
  by (simp add: getIssueComments_def final_andThen_Resolved request_calls)

lemma fetchChecks_calls:
  "calls (final (fetchChecks net s)) = calls s @ [(now s, GetCheckRuns)]"
  by (simp add: fetchChecks_def request_calls)

lemma deleteExistingComments_calls:
  "\<exists>ds. calls (final (deleteExistingComments net s)) = calls s @ (now s, GetComments) # ds
        \<and> (\<forall>e \<in> set ds. is_delete (snd e))"
proof (cases "getIssueComments net s")
  case (Resolved cs s1)
  have "calls s1 = calls s @ [(now s, GetComments)]"
    using getIssueComments_calls [of net s] Resolved by simp
  then show ?thesis
    using Resolved
    by (simp add: deleteExistingComments_def andThen_def deleteCommentsFromAction_calls)
next
  case (Exited k s1)
  then show ?thesis
    using getIssueComments_calls [of net s]
    by (simp add: deleteExistingComments_def andThen_def)
next
  case (Rejected s1)
  then show ?thesis
    using getIssueComments_calls [of net s]
    by (simp add: deleteExistingComments_def andThen_def)
qed

lemma poll_calls:
  "\<exists>ds tl. calls (final (poll env net s)) = calls s @ (now s, GetComments) # ds @ tl
        \<and> (\<forall>e \<in> set ds. is_delete (snd e))
        \<and> (tl = [] \<or> (\<exists>t. tl = [(t, GetCheckRuns)]))
        \<and> (\<forall>st s1. poll env net s = Resolved st s1 \<longrightarrow> tl \<noteq> [])"
proof -
  let ?s = "log ScanningChecks s"
  obtain ds where ds: "calls (final (deleteExistingComments net ?s)) = calls s @ (now s, GetComments) # ds"
    "\<forall>e \<in> set ds. is_delete (snd e)"
    using deleteExistingComments_calls [of net ?s] by (auto simp: log_def)
  show ?thesis
  proof (cases "deleteExistingComments net ?s")
    case (Resolved u s1)
    have "calls (final (poll env net s)) = calls s1 @ [(now s1, GetCheckRuns)]"
      using Resolved fetchChecks_calls [of net s1]
      by (simp add: poll_def andThen_def final_andThen_Resolved [unfolded andThen_def])
    with ds Resolved show ?thesis
      by (intro exI [of _ ds] exI [of _ "[(now s1, GetCheckRuns)]"]) simp
  next
    case (Exited k s1)
    with ds show ?thesis
      by (intro exI [of _ ds] exI [of _ "[]"]) (simp add: poll_def andThen_def)
  next
    case (Rejected s1)
    with ds show ?thesis
      by (intro exI [of _ ds] exI [of _ "[]"]) (simp add: poll_def andThen_def)
  qed
qed

lemma request_not_Resolved_unanswered:
  "(\<forall>x s'. request net c d s \<noteq> Resolved x s') \<Longrightarrow> unanswered net (now s, c)"
  by (auto simp: request_as_wait andThen_def wait_def unanswered_def sent_def split: if_splits)

lemma getGiphyGifForTag_calls:
  "calls (final (getGiphyGifForTag net tag s)) = calls s @ [(now s, GetRandomGif tag)]"
  by (simp add: getGiphyGifForTag_def final_andThen_Resolved request_calls)

lemma postCommentWithGif_calls:
  "calls (final (postCommentWithGif net g s)) = calls s @ [(now s, PostComment (comment_body g))]"
  by (simp add: postCommentWithGif_def request_calls log_def)

lemma postCommentWithGif_unanswered:
  "(\<forall>x s'. postCommentWithGif net g s \<noteq> Resolved x s') \<Longrightarrow>
     unanswered net (now s, PostComment (comment_body g))"
  using request_not_Resolved_unanswered [of net "PostComment (comment_body g)" "()" "log PostingComment s"]
  by (simp add: postCommentWithGif_def log_def)

lemma postGiphyGifForTag_calls:
  "\<exists>tl. calls (final (postGiphyGifForTag net tag s)) = calls s @ (now s, GetRandomGif tag) # tl
        \<and> (tl = [] \<or> (\<exists>t b. tl = [(t, PostComment b)]
               \<and> ((\<forall>x s'. postGiphyGifForTag net tag s \<noteq> Resolved x s')
                      \<longrightarrow> unanswered net (t, PostComment b))))"
proof (cases "getGiphyGifForTag net tag s")
  case (Resolved g s1)
  have "calls s1 = calls s @ [(now s, GetRandomGif tag)]"
    using getGiphyGifForTag_calls [of net tag s] Resolved by simp
  moreover have "postGiphyGifForTag net tag s = postCommentWithGif net g s1"
    using Resolved by (simp add: postGiphyGifForTag_def andThen_def)
  ultimately show ?thesis
    using postCommentWithGif_unanswered [of net g s1]
    by (simp add: postCommentWithGif_calls)
next
  case (Exited k s1)
  then show ?thesis
    using getGiphyGifForTag_calls [of net tag s]
    by (simp add: postGiphyGifForTag_def andThen_def)
next
  case (Rejected s1)
  then show ?thesis
    using getGiphyGifForTag_calls [of net tag s]
    by (simp add: postGiphyGifForTag_def andThen_def)
qed

lemma rounds_deletes:
  "\<forall>e \<in> set ds. is_delete (snd e) \<Longrightarrow> rounds b (map snd ds @ cs) = rounds b cs"
proof (induction ds)
  case Nil
  show ?case by simp
next
  case (Cons e ds)
  then obtain t i where "e = (t, DeleteComment i)"
    by (cases e; cases "snd e") auto
  with Cons show ?case by simp
qed

lemma rounds_counts:
  "rounds b cs \<Longrightarrow>
     (if b then count_list cs GetComments \<le> count_list cs GetCheckRuns
                \<and> count_list cs GetCheckRuns \<le> Suc (count_list cs GetComments)
      else count_list cs GetCheckRuns \<le> count_list cs GetComments
                \<and> count_list cs GetComments \<le> Suc (count_list cs GetCheckRuns))"
proof (induction cs arbitrary: b)
  case Nil
  show ?case by simp
next
  case (Cons c cs)
  then show ?case
    by (cases c; cases b) (auto split: if_splits)
qed

lemma fine_deletes:
  "\<forall>e \<in> set ds. is_delete (snd e) \<Longrightarrow> fine net b res (ds @ new) = fine net b res new"
  by (auto simp: fine_def rounds_deletes dest: delete_not_post)

lemma fine_simps [simp]:
  "fine net b res [] = True"
  "fine net b res ((t, GetCheckRuns) # new) = (b \<and> fine net False res new)"
  "fine net b res ((t, GetComments) # new) = (\<not> b \<and> fine net True res new)"
  "fine net b res ((t, GetRandomGif tag) # new) = fine net b res new"
  "fine net b res ((t, PostComment c) # new)
     = ((\<not> res \<longrightarrow> unanswered net (t, PostComment c)) \<and> fine net b res new)"
  by (auto simp: fine_def)

lemma thumbs_calls:
  "\<exists>tl. calls (final (andThen (postGiphyGifForTag net tag s1) (\<lambda>_. Resolved ())))
          = calls s1 @ (now s1, GetRandomGif tag) # tl
      \<and> fine net b (\<exists>x s'. andThen (postGiphyGifForTag net tag s1) (\<lambda>_. Resolved ()) = Resolved x s') tl"
proof -
  obtain tl where g: "calls (final (postGiphyGifForTag net tag s1))
          = calls s1 @ (now s1, GetRandomGif tag) # tl"
    and tl: "tl = [] \<or> (\<exists>t c. tl = [(t, PostComment c)]
               \<and> ((\<forall>x s'. postGiphyGifForTag net tag s1 \<noteq> Resolved x s')
                      \<longrightarrow> unanswered net (t, PostComment c)))"
    using postGiphyGifForTag_calls [of net tag s1] by blast
  from tl have "fine net b (\<exists>x s'. postGiphyGifForTag net tag s1 = Resolved x s') tl"
    by (elim disjE exE conjE) simp_all
  with g show ?thesis
    by (simp only: final_thumbs thumbs_Resolved) blast
qed

lemma scan_calls:
  "\<exists>new. calls (final (scanChecksAndPostGif env net s)) = calls s @ (now s, GetComments) # new
      \<and> fine net True (\<exists>x s'. scanChecksAndPostGif env net s = Resolved x s') new"
proof (induction s rule: scan_induct [of env net])
  case (round s)
  obtain ds tl where p: "calls (final (poll env net s)) = calls s @ (now s, GetComments) # ds @ tl"
    and ds: "\<forall>e \<in> set ds. is_delete (snd e)"
    and tl: "tl = [] \<or> (\<exists>t. tl = [(t, GetCheckRuns)])"
    and res: "\<forall>st s1. poll env net s = Resolved st s1 \<longrightarrow> tl \<noteq> []"
    using poll_calls [of env net s] by blast
  have polled: "\<exists>t. calls s1 = calls s @ (now s, GetComments) # ds @ [(t, GetCheckRuns)]"
    if "poll env net s = Resolved st s1" for st s1
    using that p res tl by auto
  obtain r where r: "scanChecksAndPostGif env net s = r" by simp
  from r have "\<exists>new. calls (final r) = calls s @ (now s, GetComments) # new
      \<and> fine net True (\<exists>x s'. r = Resolved x s') new"
  proof (cases rule: scan_cases)
    case (cut k s')
    from tl have "fine net True False (ds @ tl)"
      by (auto simp: fine_deletes [OF ds])
    with p cut show ?thesis by auto
  next
    case (failed s')
    from tl have "fine net True False (ds @ tl)"
      by (auto simp: fine_deletes [OF ds])
    with p failed show ?thesis by auto
  next
    case (thumbs_down s1)
    from polled [OF thumbs_down(1)] obtain t where
      s1: "calls s1 = calls s @ (now s, GetComments) # ds @ [(t, GetCheckRuns)]" ..
    from thumbs_calls [of net "''thumbs-down''" s1 False] obtain tl2 where
      "calls (final r) = calls s1 @ (now s1, GetRandomGif ''thumbs-down'') # tl2"
      "fine net False (\<exists>x s'. r = Resolved x s') tl2"
      unfolding thumbs_down(2) by blast
    then have "calls (final r) = calls s @ (now s, GetComments)
                 # (ds @ (t, GetCheckRuns) # (now s1, GetRandomGif ''thumbs-down'') # tl2)"
      and "fine net True (\<exists>x s'. r = Resolved x s')
             (ds @ (t, GetCheckRuns) # (now s1, GetRandomGif ''thumbs-down'') # tl2)"
      by (simp_all add: s1 fine_deletes [OF ds])
    then show ?thesis by blast
  next
    case (thumbs_up s1)
    from polled [OF thumbs_up(1)] obtain t where
      s1: "calls s1 = calls s @ (now s, GetComments) # ds @ [(t, GetCheckRuns)]" ..
    from thumbs_calls [of net "''thumbs-up''" s1 False] obtain tl2 where
      "calls (final r) = calls s1 @ (now s1, GetRandomGif ''thumbs-up'') # tl2"
      "fine net False (\<exists>x s'. r = Resolved x s') tl2"
      unfolding thumbs_up(2) by blast
    then have "calls (final r) = calls s @ (now s, GetComments)
                 # (ds @ (t, GetCheckRuns) # (now s1, GetRandomGif ''thumbs-up'') # tl2)"
      and "fine net True (\<exists>x s'. r = Resolved x s')
             (ds @ (t, GetCheckRuns) # (now s1, GetRandomGif ''thumbs-up'') # tl2)"
      by (simp_all add: s1 fine_deletes [OF ds])
    then show ?thesis by blast
  next
    case (cut_waiting s1 k s')
    from polled [OF cut_waiting(1)] obtain t where
      s1: "calls s1 = calls s @ (now s, GetComments) # ds @ [(t, GetCheckRuns)]" ..
    from cut_waiting(2) have "calls s' = calls s1"
      by (auto dest!: wait_Exited simp: log_def)
    with s1 cut_waiting(3) have "calls (final r) = calls s @ (now s, GetComments) # (ds @ [(t, GetCheckRuns)])"
      and "fine net True (\<exists>x s'. r = Resolved x s') (ds @ [(t, GetCheckRuns)])"
      by (simp_all add: fine_deletes [OF ds])
    then show ?thesis by blast
  next
    case (again s1 s2)
    from polled [OF again(1)] obtain t where
      s1: "calls s1 = calls s @ (now s, GetComments) # ds @ [(t, GetCheckRuns)]" ..
    from again(2) have s2: "calls s2 = calls s1"
      by (auto dest!: wait_Resolved_state)
    from round [OF again(1,2)] again(3) obtain new where
      "calls (final r) = calls s2 @ (now s2, GetComments) # new"
      "fine net True (\<exists>x s'. r = Resolved x s') new"
      by auto
    then have "calls (final r) = calls s @ (now s, GetComments)
                 # (ds @ (t, GetCheckRuns) # (now s2, GetComments) # new)"
      and "fine net True (\<exists>x s'. r = Resolved x s')
             (ds @ (t, GetCheckRuns) # (now s2, GetComments) # new)"
      by (simp_all add: s1 s2 fine_deletes [OF ds])
    then show ?thesis by blast
  qed
  with r show ?case by simp
qed

section \<open>Time\<close>

lemma timely_andThen:
  assumes "timely s p" and "\<And>x s1. p = Resolved x s1 \<Longrightarrow> timely s1 (f x s1)"
  shows "timely s (andThen p f)"
proof (cases p)
  case (Resolved x s1)
  with assms(1) have "now s \<le> now s1" by (simp add: timely_def)
  moreover from assms(2) [OF Resolved] have "timely s1 (f x s1)" .
  ultimately show ?thesis
    using Resolved by (auto simp: timely_def andThen_def split: settled.splits)
qed (use assms(1) in \<open>simp_all add: timely_def andThen_def\<close>)

lemma timely_andThen_Resolved: "timely s p \<Longrightarrow> timely s (andThen p (\<lambda>x s'. Resolved (g x) s'))"
  by (cases p) (simp_all add: timely_def andThen_def)

lemma timely_wait: "timely s (wait d s)"
  by (simp add: timely_def wait_def log_def)

lemma timely_same_now: "now s = now s' \<Longrightarrow> timely s r = timely s' r"
  by (cases r) (simp_all add: timely_def)

lemma timely_request: "timely s (request net c d s)"
proof -
  have "timely (sent net c s) (wait (latency net (now s) c) (sent net c s))"
    by (rule timely_wait)
  then have "timely s (wait (latency net (now s) c) (sent net c s))"
    by (simp add: timely_same_now [of s "sent net c s"] sent_def)
  then show ?thesis
    unfolding request_as_wait
    by (rule timely_andThen) (auto simp: timely_def sent_def dest!: wait_Resolved_state)
qed

lemma timely_Resolved: "now s < timeout_ms \<Longrightarrow> timely s (Resolved x s)"
  by (simp add: timely_def)

lemma timely_log: "timely (log l s) r = timely s r"
  by (rule timely_same_now) (simp add: log_def)

lemma timely_request_all: "timely s (request_all net cs s)"
proof -
  let ?sent = "s\<lparr>calls := calls s @ map (Pair (now s)) cs,
                 thread := fold serve (filter (\<lambda>c. \<not> rejects net (now s) c) cs) (thread s)\<rparr>"
  have *: "now s = now ?sent"
    by simp
  show ?thesis
  proof (cases "map (latency net (now s)) (filter (rejects net (now s)) cs)")
    case Nil
    have "timely ?sent (wait (fold max (map (latency net (now s)) cs) 0) ?sent)"
      by (rule timely_wait)
    then have "timely s (wait (fold max (map (latency net (now s)) cs) 0) ?sent)"
      by (simp only: timely_same_now [OF *])
    with Nil show ?thesis
      by (simp add: request_all_def Let_def)
  next
    case (Cons d ds)
    have "timely ?sent (andThen (wait (fold min ds d) ?sent) (\<lambda>_ s'. Rejected s'))"
      by (rule timely_andThen [OF timely_wait]) (auto simp: timely_def dest!: wait_Resolved_state)
    then have "timely s (andThen (wait (fold min ds d) ?sent) (\<lambda>_ s'. Rejected s'))"
      by (simp only: timely_same_now [OF *])
    with Cons show ?thesis
      by (simp add: request_all_def Let_def)
  qed
qed

lemma timely_getIssueComments: "timely s (getIssueComments net s)"
  unfolding getIssueComments_def by (rule timely_andThen_Resolved [OF timely_request])

lemma timely_deleteCommentsFromAction:
  "now s < timeout_ms \<Longrightarrow> timely s (deleteCommentsFromAction net cs s)"
  using timely_request_all [of "log (FoundExisting n) s" for n]
  by (simp add: deleteCommentsFromAction_def Let_def timely_Resolved timely_log)

lemma timely_Resolved_bound: "timely s r \<Longrightarrow> r = Resolved x s1 \<Longrightarrow> now s1 < timeout_ms"
  by (simp add: timely_def)

lemma timely_deleteExistingComments: "timely s (deleteExistingComments net s)"
  unfolding deleteExistingComments_def
  by (rule timely_andThen [OF timely_getIssueComments])
     (rule timely_deleteCommentsFromAction, rule timely_Resolved_bound [OF timely_getIssueComments])

lemma timely_fetchChecks: "timely s (fetchChecks net s)"
  by (simp add: fetchChecks_def timely_request)

lemma timely_poll: "timely s (poll env net s)"
proof -
  let ?s = "log ScanningChecks s"
  have "timely ?s (andThen (deleteExistingComments net ?s) (\<lambda>_. fetchChecks net))"
    by (rule timely_andThen [OF timely_deleteExistingComments timely_fetchChecks])
  then have "timely ?s (poll env net s)"
    unfolding poll_def by (rule timely_andThen_Resolved)
  then show ?thesis
    by (simp only: timely_log)
qed

lemma timely_postCommentWithGif: "timely s (postCommentWithGif net g s)"
proof -
  have "timely (log PostingComment s) (postCommentWithGif net g s)"
    unfolding postCommentWithGif_def by (rule timely_request)
  then show ?thesis
    by (simp only: timely_log)
qed

lemma timely_getGiphyGifForTag: "timely s (getGiphyGifForTag net tag s)"
  unfolding getGiphyGifForTag_def by (rule timely_andThen_Resolved [OF timely_request])

lemma timely_postGiphyGifForTag: "timely s (postGiphyGifForTag net tag s)"
  unfolding postGiphyGifForTag_def
  by (rule timely_andThen [OF timely_getGiphyGifForTag timely_postCommentWithGif])

lemma timely_trans:
  "timely s p \<Longrightarrow> p = Resolved x s1 \<Longrightarrow> timely s1 r \<Longrightarrow> timely s r"
  by (cases r) (auto simp: timely_def)

lemma timely_thumbs:
  "timely s1 (andThen (postGiphyGifForTag net tag s1) (\<lambda>_. Resolved ()))"
  using timely_andThen_Resolved [OF timely_postGiphyGifForTag, of s1 net tag "\<lambda>_. ()"] by simp

lemma timely_scan: "timely s (scanChecksAndPostGif env net s)"
proof (induction s rule: scan_induct [of env net])
  case (round s)
  note p = timely_poll [of s env net]
  obtain r where r: "scanChecksAndPostGif env net s = r" by simp
  from r have "timely s r"
  proof (cases rule: scan_cases)
    case (cut k s')
    with p show ?thesis by (simp add: timely_def)
  next
    case (failed s')
    with p show ?thesis by (simp add: timely_def)
  next
    case (thumbs_down s1)
    from p thumbs_down(1) show ?thesis
      unfolding thumbs_down(2) by (rule timely_trans) (rule timely_thumbs)
  next
    case (thumbs_up s1)
    from p thumbs_up(1) show ?thesis
      unfolding thumbs_up(2) by (rule timely_trans) (rule timely_thumbs)
  next
    case (cut_waiting s1 k s')
    with timely_wait [of s1 5000] show ?thesis by (simp add: timely_def)
  next
    case (again s1 s2)
    from round [OF again(1,2)] again(3) have "timely s2 r" by simp
    with timely_wait [of s1 5000] again(2) have "timely s1 r" by (rule timely_trans)
    with p again(1) show ?thesis by (rule timely_trans)
  qed
  with r show ?case by simp
qed

section \<open>The status a poll resolves with\<close>

lemma fetchChecks_Resolved:
  "fetchChecks net s = Resolved res s' \<Longrightarrow>
     res = checks_response (check_runs_at net (now s)) \<and> now s < timeout_ms
     \<and> thread s' = thread s"
  by (auto simp: fetchChecks_def checks_response_def dest!: request_Resolved)

lemma poll_Resolved:
  "poll env net s = Resolved st s1 \<Longrightarrow>
     \<exists>t < timeout_ms. st = getStatusOfChecks (githubAction env) (checks_response (check_runs_at net t))"
  by (auto simp: poll_def andThen_Resolved dest!: fetchChecks_Resolved)

lemma poll_posts:
  "e \<in> set (calls (final (poll env net s))) \<Longrightarrow> is_post (snd e) \<Longrightarrow> e \<in> set (calls s)"
proof -
  assume e: "e \<in> set (calls (final (poll env net s)))" "is_post (snd e)"
  obtain ds tl where p: "calls (final (poll env net s)) = calls s @ (now s, GetComments) # ds @ tl"
    and ds: "\<forall>e \<in> set ds. is_delete (snd e)"
    and tl: "tl = [] \<or> (\<exists>t. tl = [(t, GetCheckRuns)])"
    using poll_calls [of env net s] by blast
  from e(2) ds have "e \<notin> set ds" using delete_not_post by blast
  moreover from e(2) tl have "e \<notin> set tl" by auto
  moreover from e(2) have "e \<noteq> (now s, GetComments)" by auto
  ultimately show ?thesis using e(1) p by auto
qed

lemma scan_in_progress:
  assumes "\<forall>t < timeout_ms.
     getStatusOfChecks (githubAction env) (checks_response (check_runs_at net t)) = ''IN_PROGRESS''"
  shows "(\<forall>x s'. scanChecksAndPostGif env net s \<noteq> Resolved x s')
     \<and> (\<forall>e \<in> set (calls (final (scanChecksAndPostGif env net s))). is_post (snd e) \<longrightarrow> e \<in> set (calls s))"
proof (induction s rule: scan_induct [of env net])
  case (round s)
  have st: "st = ''IN_PROGRESS''" if "poll env net s = Resolved st s1" for st s1
    using poll_Resolved [OF that] assms by auto
  obtain r where r: "scanChecksAndPostGif env net s = r" by simp
  from r have "(\<forall>x s'. r \<noteq> Resolved x s')
     \<and> (\<forall>e \<in> set (calls (final r)). is_post (snd e) \<longrightarrow> e \<in> set (calls s))"
  proof (cases rule: scan_cases)
    case (cut k s')
    with poll_posts [of _ env net s] show ?thesis by auto
  next
    case (failed s')
    with poll_posts [of _ env net s] show ?thesis by auto
  next
    case (thumbs_down s1)
    with st show ?thesis by fastforce
  next
    case (thumbs_up s1)
    with st show ?thesis by fastforce
  next
    case (cut_waiting s1 k s')
    from cut_waiting(2) have "calls s' = calls s1"
      by (auto dest!: wait_Exited simp: log_def)
    with cut_waiting(1,3) poll_posts [of _ env net s] show ?thesis by auto
  next
    case (again s1 s2)
    from again(2) have "calls s2 = calls s1"
      by (auto dest!: wait_Resolved_state)
    with round [OF again(1,2)] again(1,3) poll_posts [of _ env net s] show ?thesis by auto
  qed
  with r show ?case by simp
qed

section \<open>Without errors no promise is rejected\<close>

lemma request_all_not_Rejected:
  "\<forall>t c. \<not> rejects net t c \<Longrightarrow> request_all net cs s \<noteq> Rejected s'"
  by (simp add: request_all_def Let_def)

lemma request_not_Rejected:
  "\<forall>t c. \<not> rejects net t c \<Longrightarrow> request net c d s \<noteq> Rejected s'"
  by (auto dest: request_Rejected)

lemma poll_not_Rejected:
  "\<forall>t c. \<not> rejects net t c \<Longrightarrow> poll env net s \<noteq> Rejected s'"
  by (auto simp: poll_def deleteExistingComments_def getIssueComments_def fetchChecks_def
      deleteCommentsFromAction_def Let_def andThen_Rejected request_all_not_Rejected
      request_not_Rejected)

lemma thumbs_not_Rejected:
  "\<forall>t c. \<not> rejects net t c \<Longrightarrow>
     andThen (postGiphyGifForTag net tag s) (\<lambda>_. Resolved ()) \<noteq> Rejected s'"
  by (auto simp: postGiphyGifForTag_def getGiphyGifForTag_def postCommentWithGif_def
      andThen_Rejected request_not_Rejected)

lemma scan_not_Rejected:
  assumes "\<forall>t c. \<not> rejects net t c"
  shows "scanChecksAndPostGif env net s \<noteq> Rejected s'"
proof (induction s rule: scan_induct [of env net])
  case (round s)
  obtain r where r: "scanChecksAndPostGif env net s = r" by simp
  from r have "r \<noteq> Rejected s'"
  proof (cases rule: scan_cases)
    case (failed s')
    with poll_not_Rejected [OF assms] show ?thesis by auto
  next
    case (thumbs_down s1)
    with thumbs_not_Rejected [OF assms] show ?thesis by auto
  next
    case (thumbs_up s1)
    with thumbs_not_Rejected [OF assms] show ?thesis by auto
  next
    case (again s1 s2)
    with round show ?thesis by simp
  qed simp_all
  with r show ?case by simp
qed

section \<open>The comments on the server\<close>

lemma serve_deleteComment:
  "serve (deleteComment d) cs = filter (\<lambda>c. comment_id c \<noteq> comment_id d) cs"
  by (simp add: deleteComment_def)

lemma fold_serve_deletes:
  "fold serve (map deleteComment ds) cs = filter (\<lambda>c. comment_id c \<notin> comment_id ` set ds) cs"
proof (induction ds arbitrary: cs)
  case Nil
  show ?case by simp
next
  case (Cons d ds)
  have "fold serve (map deleteComment (d # ds)) cs
          = fold serve (map deleteComment ds) (filter (\<lambda>c. comment_id c \<noteq> comment_id d) cs)"
    by (simp add: serve_deleteComment)
  also have "\<dots> = filter (\<lambda>c. comment_id c \<notin> comment_id ` set ds)
                      (filter (\<lambda>c. comment_id c \<noteq> comment_id d) cs)"
    by (rule Cons)
  also have "\<dots> = filter (\<lambda>c. comment_id c \<notin> comment_id ` set (d # ds)) cs"
    by (auto intro: filter_cong)
  finally show ?case .
qed

lemma request_all_Resolved:
  "request_all net cs s = Resolved x s' \<Longrightarrow> thread s' = fold serve cs (thread s)"
proof -
  assume r: "request_all net cs s = Resolved x s'"
  show ?thesis
  proof (cases "filter (rejects net (now s)) cs")
    case Nil
    then have "filter (\<lambda>c. \<not> rejects net (now s) c) cs = cs"
      by (simp add: filter_empty_conv filter_id_conv)
    with r Nil show ?thesis
      by (auto simp: request_all_def Let_def dest!: wait_Resolved_state)
  next
    case (Cons c cs')
    with r show ?thesis
      by (simp add: request_all_def Let_def andThen_Resolved)
  qed
qed

lemma getIssueComments_Resolved:
  "getIssueComments net s = Resolved cs s1 \<Longrightarrow>
     cs = take (page_size net) (thread s) \<and> thread s1 = thread s"
  by (auto simp: getIssueComments_def andThen_Resolved dest!: request_Resolved)

lemma deleteCommentsFromAction_Resolved:
  "deleteCommentsFromAction net cs s = Resolved x s' \<Longrightarrow>
     thread s' = filter (\<lambda>c. comment_id c \<notin> comment_id ` set (footer_comments cs)) (thread s)"
proof (cases "footer_comments cs = []")
  case True
  assume "deleteCommentsFromAction net cs s = Resolved x s'"
  with True show ?thesis
    by (simp add: deleteCommentsFromAction_def Let_def footer_comments_code)
next
  case False
  assume "deleteCommentsFromAction net cs s = Resolved x s'"
  with False have "request_all net (map deleteComment (footer_comments cs))
                     (log (FoundExisting (length (footer_comments cs))) s) = Resolved x s'"
    by (simp add: deleteCommentsFromAction_def Let_def footer_comments_code)
  from request_all_Resolved [OF this] show ?thesis
    by (simp add: fold_serve_deletes log_def)
qed

lemma deleteExistingComments_clean:
  assumes "footer_comments (drop (page_size net) (thread s)) = []"
    and "deleteExistingComments net s = Resolved x s'"
  shows "footer_comments (thread s') = []"
proof -
  from assms(2) obtain s1 where
    d: "deleteCommentsFromAction net (take (page_size net) (thread s)) s1 = Resolved x s'"
    and s1: "thread s1 = thread s"
    by (auto simp: deleteExistingComments_def andThen_Resolved dest!: getIssueComments_Resolved)
  let ?listed = "take (page_size net) (thread s)"
  have th: "thread s' = filter (\<lambda>c. comment_id c \<notin> comment_id ` set (footer_comments ?listed)) (thread s)"
    using deleteCommentsFromAction_Resolved [OF d] s1 by simp
  have "\<not> sublist commentFooter (body c)" if "c \<in> set (thread s')" for c
  proof
    assume f: "sublist commentFooter (body c)"
    from that th have c: "c \<in> set (thread s)"
      and nid: "comment_id c \<notin> comment_id ` set (footer_comments ?listed)" by auto
    from c have "c \<in> set ?listed \<or> c \<in> set (drop (page_size net) (thread s))"
      by (metis Un_iff append_take_drop_id set_append)
    moreover from assms(1) f have "c \<notin> set (drop (page_size net) (thread s))"
      by (auto simp: footer_comments_def filter_empty_conv)
    ultimately have "c \<in> set (footer_comments ?listed)"
      using f by (simp add: footer_comments_def)
    with nid show False by blast
  qed
  then show ?thesis
    by (simp add: footer_comments_def filter_empty_conv)
qed

lemma poll_clean:
  assumes "footer_comments (drop (page_size net) (thread s)) = []"
    and "poll env net s = Resolved st s1"
  shows "footer_comments (thread s1) = []"
proof -
  from assms(2) obtain u s0 res where
    d: "deleteExistingComments net (log ScanningChecks s) = Resolved u s0"
    and f: "fetchChecks net s0 = Resolved res s1"
    by (auto simp: poll_def andThen_Resolved)
  from assms(1) have "footer_comments (drop (page_size net) (thread (log ScanningChecks s))) = []"
    by (simp add: log_def)
  from deleteExistingComments_clean [OF this d] fetchChecks_Resolved [OF f]
  show ?thesis by simp
qed

lemma clean_beyond_page: "footer_comments cs = [] \<Longrightarrow> footer_comments (drop n cs) = []"
  by (auto simp: footer_comments_def filter_empty_conv dest: in_set_dropD)

lemma thumbs_thread:
  assumes "andThen (postGiphyGifForTag net tag s) (\<lambda>_. Resolved ()) = Resolved x s'"
  shows "\<exists>c. thread s' = thread s @ [c]"
  using assms
  by (auto simp: postGiphyGifForTag_def getGiphyGifForTag_def postCommentWithGif_def
      andThen_Resolved log_def dest!: request_Resolved)

lemma scan_thread:
  "footer_comments (drop (page_size net) (thread s)) = [] \<Longrightarrow>
     scanChecksAndPostGif env net s = Resolved x s' \<Longrightarrow>
     length (footer_comments (thread s')) \<le> 1"
proof (induction s rule: scan_induct [of env net])
  case (round s)
  note clean = poll_clean [OF round(2)]
  from round(3) show ?case
  proof (cases rule: scan_cases)
    case (thumbs_down s1)
    from thumbs_thread [OF thumbs_down(2) [symmetric]] clean [OF thumbs_down(1)]
    show ?thesis by (auto simp: footer_comments_def)
  next
    case (thumbs_up s1)
    from thumbs_thread [OF thumbs_up(2) [symmetric]] clean [OF thumbs_up(1)]
    show ?thesis by (auto simp: footer_comments_def)
  next
    case (again s1 s2)
    from again(2) have "thread s2 = thread s1"
      by (auto dest!: wait_Resolved_state)
    with clean [OF again(1)] have "footer_comments (drop (page_size net) (thread s2)) = []"
      by (simp add: clean_beyond_page)
    from round(1) [OF again(1,2) this] again(3) show ?thesis by simp
  qed simp_all
qed

section \<open>The script as a whole\<close>

lemma main_without_trigger:
  "\<not> triggers env \<Longrightarrow>
     calls (snd (main env net cs)) = [] \<and> now (snd (main env net cs)) = 0
     \<and> thread (snd (main env net cs)) = cs"
  by (auto simp: main_def triggers_def log_def split: option.splits payload.splits)


lemma main_triggered:
  assumes "triggers env"
  shows "\<exists>ev :: event. main env net cs =
      (case scanChecksAndPostGif env net
              \<lparr>now = 0, thread = cs, calls = [],
               console = [Running (githubAction env) (number ev) (action ev)]\<rparr> of
         Exited k s \<Rightarrow> (k, s)
       | Rejected s \<Rightarrow> (1, log LoggedError s)
       | Resolved x s \<Rightarrow> (0, s))"
proof -
  from assms obtain ev where "githubEvent env = Some (Payload ev)"
    and "action ev = Some ''synchronize'' \<or> action ev = Some ''opened''"
    by (auto simp: triggers_def split: option.splits payload.splits)
  then have "main env net cs =
      (case scanChecksAndPostGif env net
              \<lparr>now = 0, thread = cs, calls = [],
               console = [Running (githubAction env) (number ev) (action ev)]\<rparr> of
         Exited k s \<Rightarrow> (k, s)
       | Rejected s \<Rightarrow> (1, log LoggedError s)
       | Resolved x s \<Rightarrow> (0, s))"
    by (auto simp: main_def log_def)
  then show ?thesis by (rule exI [of _ ev])
qed

lemma main_calls:
  "\<exists>new. calls (snd (main env net cs)) = (if triggers env then (0, GetComments) # new else [])
      \<and> fine net True (fst (main env net cs) = 0) new"
proof (cases "triggers env")
  case False
  then show ?thesis by (intro exI [of _ "[]"]) (simp add: main_without_trigger)
next
  case True
  then obtain ev :: event where m: "main env net cs =
      (case scanChecksAndPostGif env net
              \<lparr>now = 0, thread = cs, calls = [],
               console = [Running (githubAction env) (number ev) (action ev)]\<rparr> of
         Exited k s \<Rightarrow> (k, s)
       | Rejected s \<Rightarrow> (1, log LoggedError s)
       | Resolved x s \<Rightarrow> (0, s))"
    using main_triggered [of env net cs] by blast
  let ?s = "\<lparr>now = 0, thread = cs, calls = [],
               console = [Running (githubAction env) (number ev) (action ev)]\<rparr>"
  obtain new where new: "calls (final (scanChecksAndPostGif env net ?s)) = (0, GetComments) # new"
    "fine net True (\<exists>x s'. scanChecksAndPostGif env net ?s = Resolved x s') new"
    using scan_calls [of env net ?s] by auto
  have t: "timely ?s (scanChecksAndPostGif env net ?s)" by (rule timely_scan)
  show ?thesis
  proof (cases "scanChecksAndPostGif env net ?s")
    case (Exited k s')
    with t have "k = 1" by (simp add: timely_def)
    with new Exited m True show ?thesis by simp
  next
    case (Rejected s')
    with new m True show ?thesis by (simp add: log_def)
  next
    case (Resolved x s')
    with new m True show ?thesis by simp
  qed
qed

lemma main_cases:
  assumes "triggers env"
  obtains (timed_out) s0 k where "scanChecksAndPostGif env net s0 = Exited k (snd (main env net cs))"
      "fst (main env net cs) = 1" "now s0 = 0" "calls s0 = []" "thread s0 = cs"
    | (rejected) s0 s' where "scanChecksAndPostGif env net s0 = Rejected s'"
      "main env net cs = (1, log LoggedError s')" "now s0 = 0" "calls s0 = []" "thread s0 = cs"
    | (finished) s0 x where "scanChecksAndPostGif env net s0 = Resolved x (snd (main env net cs))"
      "fst (main env net cs) = 0" "now s0 = 0" "calls s0 = []" "thread s0 = cs"
proof -
  from main_triggered [OF assms, of net cs] obtain ev :: event where m: "main env net cs =
      (case scanChecksAndPostGif env net
              \<lparr>now = 0, thread = cs, calls = [],
               console = [Running (githubAction env) (number ev) (action ev)]\<rparr> of
         Exited k s \<Rightarrow> (k, s)
       | Rejected s \<Rightarrow> (1, log LoggedError s)
       | Resolved x s \<Rightarrow> (0, s))"
    by blast
  let ?s = "\<lparr>now = 0, thread = cs, calls = [],
               console = [Running (githubAction env) (number ev) (action ev)]\<rparr>"
  have t: "timely ?s (scanChecksAndPostGif env net ?s)" by (rule timely_scan)
  show ?thesis
  proof (cases "scanChecksAndPostGif env net ?s")
    case (Exited k s')
    with t have "k = 1" by (simp add: timely_def)
    with Exited m timed_out [of ?s k] show ?thesis by simp
  next
    case (Rejected s')
    with m rejected [of ?s s'] show ?thesis by simp
  next
    case (Resolved x s')
    with m finished [of ?s x] show ?thesis by simp
  qed
qed

text \<open>The equations that run the script on a given input.\<close>

lemmas run_defs = main_def githubEvent_def githubEventPath_def scanChecksAndPostGif.simps
  log_def githubAction_def or_empty_def
  deleteExistingComments_def getIssueComments_def deleteCommentsFromAction_def deleteComment_def
  request_def request_all_def andThen_def wait_def timeout_ms_def fetchChecks_def
  getStatusOfChecks_def postGiphyGifForTag_def postCommentWithGif_def getGiphyGifForTag_def
  comment_body_def commentFooter_def fresh_id_def Let_def

text \<open>
  A scenario of the specification: the action's own run does not hold the pipeline
  back. The old comment is deleted, the new one is posted after one poll, and the
  script exits with 0 after the four answers, with no wait of 5000 ms.
\<close>

lemma own_run_in_progress_scenario:
  "main env1 net_self_running two_comments =
     (0, \<lparr>now = 500,
          thread = [\<lparr>comment_id = 1, body = ''hi''\<rparr>,
                    \<lparr>comment_id = 2,
                     body = ''![yay](https://g/1.webp)'' @ [CHR 0x0A] @ ''<sub>;)</sub>''\<rparr>],
          calls = [(0, GetComments), (100, DeleteComment 2), (200, GetCheckRuns),
                   (300, GetRandomGif ''thumbs-up''),
                   (400, PostComment (''![yay](https://g/1.webp)'' @ [CHR 0x0A] @ ''<sub>;)</sub>''))],
          console = [Running ''self'' (Some 7) (Some ''opened''), ScanningChecks, FoundExisting 1,
                     PostingComment]\<rparr>)"
  by (simp add: env1_def thumb_def net_self_running_def two_comments_def run_defs)

section \<open>Properties of the comment manager and of the gif client\<close>

text \<open>
  Claim C7. \<^verbatim>\<open>deleteCommentsFromAction\<close> sends one deletion for each of the given comments
  that bears the footer, in their order, all at once, and sends nothing else. When none
  of the comments bears the footer it sends nothing and resolves on the spot, in the
  state it started in.
\<close>

theorem deletes_exactly_the_footer_comments:
  "calls (final (deleteCommentsFromAction net comments s)) =
     calls s @ map (\<lambda>c. (now s, DeleteComment (comment_id c))) (footer_comments comments)
   \<and> (footer_comments comments = [] \<longrightarrow> deleteCommentsFromAction net comments s = Resolved () s)"
  using deleteCommentsFromAction_calls [of net comments s]
    deleteCommentsFromAction_noop [of comments net s]
  by (simp add: footer_comments_def commentFooter_def)

text \<open>
  The example of the specification: of the comments 1 (\<^verbatim>\<open>hi\<close>) and 2 (with the footer)
  only 2 is deleted; comment 1 alone leaves nothing to do.
\<close>

theorem deletes_exactly_the_footer_comments_witness:
  "calls (final (deleteCommentsFromAction net_passing two_comments
       \<lparr>now = 100, thread = two_comments, calls = [(0, GetComments)], console = [ScanningChecks]\<rparr>))
     = [(0, GetComments), (100, DeleteComment 2)]
   \<and> deleteCommentsFromAction net_passing [\<lparr>comment_id = 1, body = ''hi''\<rparr>]
       \<lparr>now = 100, thread = two_comments, calls = [(0, GetComments)], console = [ScanningChecks]\<rparr>
     = Resolved ()
       \<lparr>now = 100, thread = two_comments, calls = [(0, GetComments)], console = [ScanningChecks]\<rparr>"
  using deletes_exactly_the_footer_comments [of net_passing two_comments
      "\<lparr>now = 100, thread = two_comments, calls = [(0, GetComments)], console = [ScanningChecks]\<rparr>"]
    deletes_exactly_the_footer_comments [of net_passing "[\<lparr>comment_id = 1, body = ''hi''\<rparr>]"
      "\<lparr>now = 100, thread = two_comments, calls = [(0, GetComments)], console = [ScanningChecks]\<rparr>"]
  by (simp add: footer_comments_code two_comments_def commentFooter_def)

text \<open>
  Claim C8. \<^verbatim>\<open>postCommentWithGif\<close> sends one request, a new comment whose body is
  \<^verbatim>\<open>![\<close>, the title, \<^verbatim>\<open>](\<close>, the address of the image, \<^verbatim>\<open>)\<close>, a line break and the footer.
\<close>

theorem posts_image_and_footer:
  "calls (final (postCommentWithGif net gif s)) =
     calls s @ [(now s, PostComment (''!['' @ title gif @ '']('' @ webp gif @ '')'' @ [CHR 0x0A] @ ''<sub>;)</sub>''))]"
  by (simp add: postCommentWithGif_def request_calls log_def comment_body_def commentFooter_def)

text \<open>The body of a posted comment bears the footer, so the next run finds it.\<close>

lemma comment_body_bears_footer: "footer_comments [\<lparr>comment_id = i, body = comment_body gif\<rparr>] \<noteq> []"
proof -
  have "comment_body gif = (''!['' @ title gif @ '']('' @ webp gif @ '')'' @ [CHR 0x0A])
          @ commentFooter @ []"
    by (simp add: comment_body_def)
  then have "sublist commentFooter (comment_body gif)"
    unfolding sublist_def by blast
  then show ?thesis
    by (simp add: footer_comments_def)
qed

section \<open>Properties of the notifier loop\<close>




text \<open>
  Claim C2, as the code has it. The cleanup is not done once per run but once per
  round: in the requests of any run, listings of the comments and fetches of the check
  runs alternate, beginning with a listing, so each poll comes after a cleanup of its
  own. A run that polls \<open>n\<close> times lists the comments \<open>n\<close> times, or \<open>n + 1\<close> times
  when it ends in the cleanup after the \<open>n\<close>-th poll.
\<close>

theorem cleanup_in_every_round:
  "cleanup_before_each_poll (map snd (calls (snd (main env net cs))))
   \<and> count_list (map snd (calls (snd (main env net cs)))) GetCheckRuns
        \<le> count_list (map snd (calls (snd (main env net cs)))) GetComments
   \<and> count_list (map snd (calls (snd (main env net cs)))) GetComments
        \<le> Suc (count_list (map snd (calls (snd (main env net cs)))) GetCheckRuns)"
proof -
  obtain new where "calls (snd (main env net cs)) = (if triggers env then (0, GetComments) # new else [])"
    and "fine net True (fst (main env net cs) = 0) new"
    using main_calls [of env net cs] by blast
  then have "rounds False (map snd (calls (snd (main env net cs))))"
    by (simp add: fine_def)
  with rounds_counts [OF this] show ?thesis
    by (simp add: cleanup_before_each_poll_def)
qed

text \<open>
  Claim C2 as stated fails: with a build in progress at the first poll and passed at
  the second, the comments are listed a second time after the first poll.
\<close>

theorem cleanup_once_counterexample:
  "map snd (calls (snd (main env1 net_second_poll []))) =
     [GetComments, GetCheckRuns, GetComments, GetCheckRuns, GetRandomGif ''thumbs-up'',
      PostComment (''![yay](https://g/1.webp)'' @ [CHR 0x0A] @ ''<sub>;)</sub>'')]"
  by (simp add: env1_def thumb_def building_def built_def net_second_poll_def run_defs)

text \<open>
  Claim C9, as the code has it. When the pipeline has started and the script exits with
  0, and no comment beyond the first page of the listing bears the footer, then at
  most one comment of the pull request bears the footer afterwards.
\<close>

theorem at_most_one_footer_comment:
  assumes "triggers env"
    and "footer_comments (drop (page_size net) cs) = []"
    and "main env net cs = (0, s)"
  shows "length (footer_comments (thread s)) \<le> 1"
  using assms(1)
proof (cases rule: main_cases [of env net cs])
  case (timed_out s0 k)
  with assms(3) show ?thesis by simp
next
  case (rejected s0 s')
  with assms(3) show ?thesis by simp
next
  case (finished s0 x)
  from assms(2) finished(5) have "footer_comments (drop (page_size net) (thread s0)) = []"
    by simp
  from scan_thread [OF this finished(1)] assms(3) show ?thesis by simp
qed

text \<open>
  The two comments of the specification's example, with a build that has passed.
\<close>

theorem at_most_one_footer_comment_witness:
  "fst (main env1 net_passing two_comments) = 0
   \<and> length (footer_comments (thread (snd (main env1 net_passing two_comments)))) \<le> 1"
proof -
  have t: "triggers env1"
    by (simp add: triggers_def githubEvent_def githubEventPath_def or_empty_def env1_def)
  have p: "footer_comments (drop (page_size net_passing) two_comments) = []"
    by (simp add: net_passing_def two_comments_def footer_comments_def)
  have "fst (main env1 net_passing two_comments) = 0"
    by (simp add: env1_def thumb_def built_def net_passing_def two_comments_def run_defs)
  then have m: "main env1 net_passing two_comments = (0, snd (main env1 net_passing two_comments))"
    by (metis prod.collapse)
  from at_most_one_footer_comment [OF t p m] \<open>fst (main env1 net_passing two_comments) = 0\<close>
  show ?thesis by simp
qed

text \<open>
  Claim C9 as stated fails: the 31st comment bears the footer and is not on the page
  the script lists, so it stays, and the new comment is the second one with the footer.
\<close>

theorem footer_comment_beyond_first_page:
  "fst (main env1 net_passing busy_thread) = 0
   \<and> footer_comments (thread (snd (main env1 net_passing busy_thread))) =
       [\<lparr>comment_id = 31, body = ''ok <sub>;)</sub>''\<rparr>,
        \<lparr>comment_id = 32, body = ''![yay](https://g/1.webp)'' @ [CHR 0x0A] @ ''<sub>;)</sub>''\<rparr>]"
  by (simp add: footer_comments_code env1_def thumb_def built_def net_passing_def
      busy_thread_def run_defs)

text \<open>
  Claim C6, as the code has it. Once the pipeline has started, the script has exited
  by 300000 ms, with 0 or with 1; an exit with 0 comes before 300000 ms. When it exits
  with 1, no new comment it has sent has been answered: each one was refused, or its
  answer was due at 300000 ms or later. When the check runs are in progress at every
  time before 300000 ms, the script exits with 1 and has sent no new comment at all;
  if moreover no request fails, it is the timer that ends it, at 300000 ms.
\<close>

theorem global_timeout:
  assumes "triggers env" and "main env net cs = (code, s)"
  shows "now s \<le> 300000 \<and> (code = 0 \<or> code = 1) \<and> (code = 0 \<longrightarrow> now s < 300000)
     \<and> (code = 1 \<longrightarrow> (\<forall>e \<in> set (calls s). is_post (snd e) \<longrightarrow> unanswered net e))
     \<and> ((\<forall>t < 300000. getStatusOfChecks (githubAction env) (checks_response (check_runs_at net t))
                          = ''IN_PROGRESS'')
          \<longrightarrow> code = 1 \<and> (\<forall>e \<in> set (calls s). \<not> is_post (snd e))
             \<and> ((\<forall>t c. \<not> rejects net t c)
                   \<longrightarrow> now s = 300000 \<and> last (console s) = MaximumTimeout))"
proof -
  from assms(2) have code: "code = fst (main env net cs)" and s: "s = snd (main env net cs)"
    by simp_all
  obtain new where calls: "calls s = (0, GetComments) # new"
    and fine: "fine net True (code = 0) new"
    using main_calls [of env net cs] assms(1) code s by auto
  from fine have posts: "\<forall>e \<in> set (calls s). is_post (snd e) \<longrightarrow> unanswered net e" if "code = 1"
    using that calls by (auto simp: fine_def)
  from assms(1) show ?thesis
  proof (cases rule: main_cases [of env net cs])
    case (timed_out s0 k)
    let ?r = "scanChecksAndPostGif env net s0"
    have t: "timely s0 ?r" by (rule timely_scan)
    with timed_out(1) s have now: "now s = timeout_ms" "last (console s) = MaximumTimeout"
      by (simp_all add: timely_def)
    have "\<forall>e \<in> set (calls s). \<not> is_post (snd e)"
      if "\<forall>t < timeout_ms. getStatusOfChecks (githubAction env) (checks_response (check_runs_at net t))
                          = ''IN_PROGRESS''"
      using scan_in_progress [OF that, of s0] timed_out(1,4) s by auto
    with now posts timed_out(2) code show ?thesis
      by (simp add: timeout_ms_def)
  next
    case (rejected s0 s')
    let ?r = "scanChecksAndPostGif env net s0"
    have t: "timely s0 ?r" by (rule timely_scan)
    with rejected(1) have "now s' < timeout_ms" by (simp add: timely_def)
    with rejected(2) assms(2) have now: "now s < timeout_ms" and c1: "code = 1"
      and cs: "calls s = calls s'"
      by (auto simp: log_def)
    have "\<forall>e \<in> set (calls s). \<not> is_post (snd e)"
      if "\<forall>t < timeout_ms. getStatusOfChecks (githubAction env) (checks_response (check_runs_at net t))
                          = ''IN_PROGRESS''"
      using scan_in_progress [OF that, of s0] rejected(1,4) cs by auto
    moreover have "\<not> (\<forall>t c. \<not> rejects net t c)"
      using scan_not_Rejected [of net env s0 s'] rejected(1) by blast
    ultimately show ?thesis
      using now c1 posts by (simp add: timeout_ms_def)
  next
    case (finished s0 x)
    let ?r = "scanChecksAndPostGif env net s0"
    have t: "timely s0 ?r" by (rule timely_scan)
    with finished(1) s have now: "now s < timeout_ms"
      by (simp add: timely_def)
    have "\<not> (\<forall>t < timeout_ms. getStatusOfChecks (githubAction env) (checks_response (check_runs_at net t))
                          = ''IN_PROGRESS'')"
      using scan_in_progress [of env net s0] finished(1) by blast
    with now finished(2) code show ?thesis
      by (simp add: timeout_ms_def)
  qed
qed

text \<open>A build that never completes, with every answer taking 100 ms.\<close>

theorem global_timeout_witness:
  "fst (main env1 net_stuck two_comments) = 1
   \<and> now (snd (main env1 net_stuck two_comments)) = 300000
   \<and> last (console (snd (main env1 net_stuck two_comments))) = MaximumTimeout
   \<and> filter (\<lambda>e. is_post (snd e)) (calls (snd (main env1 net_stuck two_comments))) = []"
proof -
  have "triggers env1"
    by (simp add: triggers_def githubEvent_def githubEventPath_def or_empty_def env1_def)
  moreover have "main env1 net_stuck two_comments
      = (fst (main env1 net_stuck two_comments), snd (main env1 net_stuck two_comments))"
    by simp
  moreover have "\<forall>t < 300000. getStatusOfChecks (githubAction env1)
      (checks_response (check_runs_at net_stuck t)) = ''IN_PROGRESS''"
    by (simp add: getStatusOfChecks_def checks_response_def net_stuck_def building_def
        githubAction_def or_empty_def env1_def)
  moreover have "\<forall>t c. \<not> rejects net_stuck t c"
    by (simp add: net_stuck_def)
  ultimately show ?thesis
    using global_timeout [of env1 net_stuck two_comments
        "fst (main env1 net_stuck two_comments)" "snd (main env1 net_stuck two_comments)"]
    by (simp add: filter_empty_conv)
qed

text \<open>
  Claim C6 as stated fails: the script can time out after it has sent the new comment.
  Here the comment is sent at 299000 ms, the server takes it, and the timer fires before
  the answer is there.
\<close>

theorem post_in_flight_at_timeout:
  "fst (main env1 net_late_post []) = 1
   \<and> now (snd (main env1 net_late_post [])) = 300000
   \<and> last (console (snd (main env1 net_late_post []))) = MaximumTimeout
   \<and> last (calls (snd (main env1 net_late_post []))) =
       (299000, PostComment (''![yay](https://g/1.webp)'' @ [CHR 0x0A] @ ''<sub>;)</sub>''))
   \<and> thread (snd (main env1 net_late_post [])) =
       [\<lparr>comment_id = 1, body = ''![yay](https://g/1.webp)'' @ [CHR 0x0A] @ ''<sub>;)</sub>''\<rparr>]"
  by (simp add: env1_def thumb_def built_def net_late_post_def run_defs)

end
